theory Spec2Isabelle
  imports Main "HOL-Library.AList" "HOL-Library.Sublist"
begin

section \<open>Python values, dictionaries and the traced callable\<close>

text \<open>
  The miner of \<^verbatim>\<open>GrammarMiner.ipynb\<close> works on Python strings and on dictionaries.
  A string is a \<^typ>\<open>string\<close>. A dictionary is an association list in insertion
  order: \<^const>\<open>AList.update\<close> is \<^verbatim>\<open>d[k] = v\<close> (an existing key keeps its place, a new
  key goes to the end), \<^const>\<open>AList.delete\<close> is the effect of \<^verbatim>\<open>del d[k]\<close> on a
  dictionary that has the key, \<^const>\<open>map_of\<close> is the lookup, and iterating a dictionary
  walks the list. Python's substring test \<^verbatim>\<open>value in text\<close> on two strings is
  \<^const>\<open>sublist\<close>. A character of the model stands for one code point of Python, of
  which the type \<^typ>\<open>char\<close> has 256, and \<^const>\<open>length\<close> is \<^verbatim>\<open>len\<close>.

  The hook only asks of a local's value whether it is a string, so the other values of
  Python are kept apart by constructors that carry no further structure.
\<close>

datatype pyvalue = PyStr string | PyInt int | PyNone | PyObject

text \<open>\<^verbatim>\<open>frame.f_locals\<close> at one trace event: the local names with their values.\<close>

type_synonym frame = "(string \<times> pyvalue) list"

type_synonym trace_record = "(string \<times> string) list"

text \<open>What \<^verbatim>\<open>sys.settrace\<close> holds: nothing, or the function \<^verbatim>\<open>traceit\<close>.\<close>

datatype hook = NoHook | Traceit

text \<open>The exceptions that leave the miner: a missing dictionary key, or whatever the
  traced callable raised (named by the string).\<close>

datatype error = KeyError string | Raised string

text \<open>How a call of the callable ends: with a return value, or with an exception.\<close>

datatype outcome = Returns pyvalue | Raises string

text \<open>
  The callable is opaque. What the miner can see of a call with one string argument is
  the sequence of frames presented to the trace hook, one per trace event and in the
  order of the events, up to the moment the call returns or raises. These frames and
  the outcome depend on the argument and on whatever state the callable keeps between
  calls (a cache of earlier results, for one), which the call may change. That state is
  the type parameter \<open>'c\<close>; a callable that keeps none has the type \<open>unit callable\<close>.
\<close>

type_synonym 'c callable = "string \<Rightarrow> 'c \<Rightarrow> (frame list \<times> outcome) \<times> 'c"

text \<open>
  The state a call of the miner starts in and leaves: the module's global variables,
  the hook of the interpreter, and the state that the callable keeps. The module sets
  \<^verbatim>\<open>the_input\<close> to \<^verbatim>\<open>None\<close> at first; \<^verbatim>\<open>trace_function\<close> assigns it before it
  installs the hook, so the hook only ever reads a string there.
\<close>

record 'c state =
  the_values :: trace_record
  the_input :: string
  trace_hook :: hook
  hidden :: 'c

section \<open>The tracer\<close>

text \<open>
  The body of the loop of \<^verbatim>\<open>traceit\<close> for one local variable:
  \<^verbatim>\<open>if isinstance(value, type('')) and len(value) >= 2 and value in the_input:
      the_values[var] = value\<close>
\<close>

fun traceit_var :: "string \<Rightarrow> trace_record \<Rightarrow> string \<times> pyvalue \<Rightarrow> trace_record" where
  "traceit_var inp vals (var, PyStr value) =
     (if 2 \<le> length value \<and> sublist value inp then AList.update var value vals else vals)"
| "traceit_var inp vals (var, PyInt i) = vals"
| "traceit_var inp vals (var, PyNone) = vals"
| "traceit_var inp vals (var, PyObject) = vals"

definition traceit :: "frame \<Rightarrow> 'c state \<Rightarrow> 'c state" where
  "traceit fr g = g\<lparr>the_values := foldl (traceit_var (the_input g)) (the_values g) fr\<rparr>"

text \<open>
  Trace events. The interpreter reports the events of a frame to the hook when the
  frame is traced: the frames of the callable are, since they start while the hook is
  installed; the frame of a function of the module is when the hook was already
  installed as the function was entered, and is not when the function itself installs the
  hook later. \<open>frame_events traced frames\<close> shows the hook the given frames, one event
  each, if the frame they belong to is traced.
\<close>

definition frame_events :: "bool \<Rightarrow> frame list \<Rightarrow> 'c state \<Rightarrow> 'c state" where
  "frame_events traced frames g =
     (if traced then foldl (\<lambda>g' fr. traceit fr g') g frames else g)"

text \<open>
  Calling the callable: every frame of the call goes to the installed hook, and the
  callable's own state moves on.
\<close>

definition call :: "'c callable \<Rightarrow> string \<Rightarrow> 'c state \<Rightarrow> outcome \<times> 'c state" where
  "call func arg g =
     (case func arg (hidden g) of
        ((frames, out), c) \<Rightarrow>
          (out, (frame_events (trace_hook g = Traceit) frames g)\<lparr>hidden := c\<rparr>))"

text \<open>
  \<^verbatim>\<open>trace_function\<close>: the three assignments, the call, and the reset of the hook, which
  is a statement after the call and so is skipped when the call raises.

  When \<^verbatim>\<open>trace_function\<close> is entered with the hook installed, its own frame is traced,
  with the locals \<^verbatim>\<open>function\<close> and \<^verbatim>\<open>input\<close>. The events of the frame up to the
  assignment \<^verbatim>\<open>the_values = {}\<close> write to the dictionary that this assignment drops
  and are left out. After it come the line events of \<^verbatim>\<open>sys.settrace(traceit)\<close> and of
  \<^verbatim>\<open>o = function(the_input)\<close>; when the call returns, the line event of
  \<^verbatim>\<open>sys.settrace(None)\<close>, where \<^verbatim>\<open>o\<close> is bound as well, and no event after the hook
  is reset; when the call raises, the exception event and the return event of the frame.
\<close>

definition trace_function_locals :: "string \<Rightarrow> frame" where
  "trace_function_locals inp = [(''function'', PyObject), (''input'', PyStr inp)]"

definition trace_function ::
  "'c callable \<Rightarrow> string \<Rightarrow> 'c state \<Rightarrow> (error + trace_record) \<times> 'c state" where
  "trace_function func inp g =
     (let traced = (trace_hook g = Traceit);
          own = trace_function_locals inp;
          g1 = g\<lparr>the_input := inp\<rparr>;
          g2 = g1\<lparr>the_values := []\<rparr>;
          g2' = frame_events traced [own] g2;
          g3 = g2'\<lparr>trace_hook := Traceit\<rparr>;
          g3' = frame_events traced [own] g3
      in case call func (the_input g3') g3' of
           (Raises e, g4) \<Rightarrow> (Inl (Raised e), frame_events traced [own, own] g4)
         | (Returns v, g4) \<Rightarrow>
             (let g4' = frame_events traced [own @ [(''o'', v)]] g4;
                  g5 = g4'\<lparr>trace_hook := NoHook\<rparr>
              in (Inr (the_values g5), g5)))"

section \<open>The grammar extractor\<close>

text \<open>
  Modelled from the spec: \<^verbatim>\<open>START_SYMBOL\<close> is imported from the module
  \<^verbatim>\<open>Grammars\<close>, which is not among the sources. The spec calls it the distinguished
  start symbol; the outputs recorded in the notebook show it as the key \<^verbatim>\<open><start>\<close>.
\<close>

definition START_SYMBOL :: string where
  "START_SYMBOL = ''<start>''"

text \<open>
  \<^verbatim>\<open>str.lower\<close> on the 256 code points of the model: the capitals are
  \<^verbatim>\<open>A\<close> to \<^verbatim>\<open>Z\<close> (65 to 90) and the capitals of Latin-1 (192 to 222 without the
  multiplication sign, 215); the small letter of each is 32 further on, and every other
  character is left as it is.
  \<^verbatim>\<open>nonterminal\<close> is the source's function of that name (the bare name is a command
  of Isabelle): \<^verbatim>\<open>"<" + var.lower() + ">"\<close>.
\<close>

definition lower_char :: "char \<Rightarrow> char" where
  "lower_char c =
     (let n = (of_char c :: nat)
      in if (65 \<le> n \<and> n \<le> 90) \<or> (192 \<le> n \<and> n \<le> 222 \<and> n \<noteq> 215)
         then char_of (n + 32) else c)"

definition lower :: "string \<Rightarrow> string" where
  "lower s = map lower_char s"

definition nonterminal_str :: "string \<Rightarrow> string" where
  "nonterminal_str var = ''<'' @ lower var @ ''>''"

text \<open>
  \<^verbatim>\<open>s.replace(old, new)\<close> of Python, with no count: scanning from the left, every
  occurrence of \<open>old\<close> that does not overlap an earlier one is replaced. For an empty
  \<open>old\<close>, \<open>new\<close> is put before every character and at the end.
\<close>

function replace :: "string \<Rightarrow> string \<Rightarrow> string \<Rightarrow> string" where
  "replace [] old new = (if old = [] then new else [])"
| "replace (c # cs) old new =
     (if old = [] then new @ c # replace cs old new
      else if prefix old (c # cs) then new @ replace (drop (length old) (c # cs)) old new
      else c # replace cs old new)"
  by pat_completeness auto
termination
  by (relation "measure (\<lambda>(s, old, new). length s)") auto

text \<open>
  A grammar is a dictionary from nonterminals to lists of alternatives. A pending rule
  is the triple \<^verbatim>\<open>(var, alt_key, value)\<close> that a pass appends to \<^verbatim>\<open>new_rules\<close>.
\<close>

type_synonym grammar = "(string \<times> string list) list"

type_synonym new_rule = "string \<times> string \<times> string"

text \<open>
  The three nested loops of one pass of \<^verbatim>\<open>get_grammar\<close>, innermost first:
  \<^verbatim>\<open>for j in range(0, len(repl_alternatives))\<close> rewrites the alternatives of one rule
  in place, \<^verbatim>\<open>for key in grammar\<close> walks the rules, \<^verbatim>\<open>for var in values\<close> walks
  the record. Each loop threads \<^verbatim>\<open>new_rules\<close>.
\<close>

fun scan_alternatives ::
  "string \<Rightarrow> string \<Rightarrow> string list \<Rightarrow> new_rule list \<Rightarrow> string list \<times> new_rule list" where
  "scan_alternatives var value [] new_rules = ([], new_rules)"
| "scan_alternatives var value (repl # rest) new_rules =
     (if sublist value repl
      then (let alt_key = nonterminal_str var
            in case scan_alternatives var value rest (new_rules @ [(var, alt_key, value)]) of
                 (rest', new_rules') \<Rightarrow> (replace repl value alt_key # rest', new_rules'))
      else (case scan_alternatives var value rest new_rules of
              (rest', new_rules') \<Rightarrow> (repl # rest', new_rules')))"

fun scan_rules ::
  "string \<Rightarrow> string \<Rightarrow> grammar \<Rightarrow> new_rule list \<Rightarrow> grammar \<times> new_rule list" where
  "scan_rules var value [] new_rules = ([], new_rules)"
| "scan_rules var value ((key, repl_alternatives) # rules) new_rules =
     (case scan_alternatives var value repl_alternatives new_rules of
        (repl_alternatives', new_rules') \<Rightarrow>
          (case scan_rules var value rules new_rules' of
             (rules', new_rules'') \<Rightarrow> ((key, repl_alternatives') # rules', new_rules'')))"

fun scan_values ::
  "trace_record \<Rightarrow> grammar \<Rightarrow> new_rule list \<Rightarrow> grammar \<times> new_rule list" where
  "scan_values [] grammar new_rules = (grammar, new_rules)"
| "scan_values ((var, value) # rest) grammar new_rules =
     (case scan_rules var value grammar new_rules of
        (grammar', new_rules') \<Rightarrow> scan_values rest grammar' new_rules')"

text \<open>
  The loop at the end of a pass: \<^verbatim>\<open>grammar[alt_key] = [value]\<close>, then
  \<^verbatim>\<open>del values[var]\<close>, which raises \<^verbatim>\<open>KeyError\<close> when the name is no longer in
  the record. The record is the dictionary object that the global \<^verbatim>\<open>the_values\<close>
  names, so what is left of it is returned in either case.
\<close>

fun promote ::
  "new_rule list \<Rightarrow> grammar \<Rightarrow> trace_record \<Rightarrow> error option \<times> grammar \<times> trace_record" where
  "promote [] grammar values = (None, grammar, values)"
| "promote ((var, alt_key, value) # rest) grammar values =
     (let grammar' = AList.update alt_key [value] grammar
      in case map_of values var of
           None \<Rightarrow> (Some (KeyError var), grammar', values)
         | Some v \<Rightarrow> promote rest grammar' (AList.delete var values))"

text \<open>
  One turn of \<^verbatim>\<open>while True\<close>: the scan, the \<^verbatim>\<open>break\<close> when no rule is pending,
  the promotion otherwise.
\<close>

datatype pass_result =
  Fixpoint grammar | Promoted grammar trace_record | Failed error trace_record

definition extract_pass :: "grammar \<Rightarrow> trace_record \<Rightarrow> pass_result" where
  "extract_pass grammar values =
     (case scan_values values grammar [] of
        (grammar', new_rules) \<Rightarrow>
          if length new_rules = 0 then Fixpoint grammar'
          else (case promote new_rules grammar' values of
                  (Some e, grammar'', values') \<Rightarrow> Failed e values'
                | (None, grammar'', values') \<Rightarrow> Promoted grammar'' values'))"

text \<open>
  A pass that promotes leaves a shorter record; this is the measure of the loop.
\<close>

lemma length_delete_less:
  "map_of vals var = Some v \<Longrightarrow> length (AList.delete var vals) < length vals"
proof (induction vals)
  case Nil
  then show ?case by simp
next
  case (Cons p vals)
  show ?case
  proof (cases "fst p = var")
    case True
    then show ?thesis
      using length_delete_le [of var vals] by (simp add: less_Suc_eq_le)
  next
    case False
    then show ?thesis using Cons by (cases p) (auto split: if_splits)
  qed
qed

lemma promote_length_le:
  "promote new_rules grammar vals = (None, grammar', vals') \<Longrightarrow>
     length vals' \<le> length vals"
proof (induction new_rules grammar vals rule: promote.induct)
  case (1 grammar vals)
  then show ?case by simp
next
  case (2 var alt_key "value" rest grammar vals)
  then show ?case
    using length_delete_less [of vals var]
    by (fastforce simp: Let_def split: option.splits)
qed

lemma promote_length_less:
  assumes "promote new_rules grammar vals = (None, grammar', vals')" and "new_rules \<noteq> []"
  shows "length vals' < length vals"
proof (cases new_rules)
  case Nil
  with assms show ?thesis by simp
next
  case (Cons r rest)
  obtain var alt_key "value" where r: "r = (var, alt_key, value)" by (cases r)
  from assms Cons r obtain v where v: "map_of vals var = Some v"
    and p: "promote rest (AList.update alt_key [value] grammar) (AList.delete var vals) =
              (None, grammar', vals')"
    by (auto simp: Let_def split: option.splits)
  from promote_length_le [OF p] length_delete_less [OF v] show ?thesis by simp
qed

lemma extract_pass_Promoted_less:
  "extract_pass grammar vals = Promoted grammar' vals' \<Longrightarrow> length vals' < length vals"
  by (auto simp: extract_pass_def split: prod.splits if_splits option.splits
           dest: promote_length_less)

text \<open>
  The loop of \<^verbatim>\<open>get_grammar\<close>. Besides the grammar or the exception, it returns what
  is left of the record and, as a counter that the source does not keep, the number of
  passes that made a substitution.
\<close>

function extract_loop :: "grammar \<Rightarrow> trace_record \<Rightarrow> (error + grammar) \<times> trace_record \<times> nat" where
  "extract_loop grammar values =
     (case extract_pass grammar values of
        Fixpoint grammar' \<Rightarrow> (Inr grammar', values, 0)
      | Failed e values' \<Rightarrow> (Inl e, values', 1)
      | Promoted grammar' values' \<Rightarrow>
          (case extract_loop grammar' values' of
             (res, values'', n) \<Rightarrow> (res, values'', Suc n)))"
  by pat_completeness auto
termination
  by (relation "measure (\<lambda>(grammar, values). length values)")
     (auto dest: extract_pass_Promoted_less)

declare extract_loop.simps [simp del]

text \<open>
  \<^verbatim>\<open>get_grammar\<close>. The deletions act on the global \<^verbatim>\<open>the_values\<close>, since
  \<^verbatim>\<open>trace_function\<close> returns that very dictionary. When \<^verbatim>\<open>get_grammar\<close> is entered
  with the hook installed, its own frame is traced. Its events before the call of
  \<^verbatim>\<open>trace_function\<close> write to the dictionary that \<^verbatim>\<open>trace_function\<close> drops, and
  there is none once \<^verbatim>\<open>trace_function\<close> has returned, the hook being reset; when the
  exception of the callable passes through, the frame has its exception event and its
  return event, with the locals \<^verbatim>\<open>function\<close>, \<^verbatim>\<open>input\<close> and \<^verbatim>\<open>grammar\<close>.
\<close>

definition get_grammar_locals :: "string \<Rightarrow> frame" where
  "get_grammar_locals inp =
     [(''function'', PyObject), (''input'', PyStr inp), (''grammar'', PyObject)]"

definition get_grammar ::
  "'c callable \<Rightarrow> string \<Rightarrow> 'c state \<Rightarrow> (error + grammar) \<times> 'c state" where
  "get_grammar func inp g =
     (let traced = (trace_hook g = Traceit);
          grammar = [(START_SYMBOL, [inp])];
          own = get_grammar_locals inp
      in case trace_function func inp g of
           (Inl e, g') \<Rightarrow> (Inl e, frame_events traced [own, own] g')
         | (Inr values, g') \<Rightarrow>
             (case extract_loop grammar values of
                (res, values', n) \<Rightarrow> (res, g'\<lparr>the_values := values'\<rparr>)))"

section \<open>The grammar merger\<close>

text \<open>
  The loops of \<^verbatim>\<open>merge_grammars\<close>, innermost first. \<^verbatim>\<open>merged_grammar\<close> and
  \<^verbatim>\<open>g1\<close> name one dictionary. \<^verbatim>\<open>for repl in repl2\<close> runs with \<^verbatim>\<open>repl1\<close> as it
  was read before the loop; \<^verbatim>\<open>for key1 in g1\<close> walks the keys the dictionary has when
  the loop starts (the loop adds none) and reads the current rule of each;
  \<^verbatim>\<open>for key2 in g2\<close> walks the rules of \<^verbatim>\<open>g2\<close> and adds the rule when
  \<^verbatim>\<open>key_found\<close> is still false. A key of the walk is a key of the dictionary, so
  the lookup \<^verbatim>\<open>g1[key1]\<close> finds a rule; the other branch is there to make the function
  total and leaves the state as it is.
\<close>

fun merge_repl ::
  "string \<Rightarrow> string \<Rightarrow> string list \<Rightarrow> string list \<Rightarrow> grammar \<times> bool \<Rightarrow> grammar \<times> bool" where
  "merge_repl key1 key2 repl1 [] (merged_grammar, key_found) = (merged_grammar, key_found)"
| "merge_repl key1 key2 repl1 (repl # rest) (merged_grammar, key_found) =
     merge_repl key1 key2 repl1 rest
       (if key1 = key2
        then (if repl \<notin> set repl1
              then AList.update key1 (repl1 @ [repl]) merged_grammar
              else merged_grammar, True)
        else (merged_grammar, key_found))"

fun merge_key1 ::
  "string list \<Rightarrow> string \<Rightarrow> string list \<Rightarrow> grammar \<times> bool \<Rightarrow> grammar \<times> bool" where
  "merge_key1 [] key2 repl2 (merged_grammar, key_found) = (merged_grammar, key_found)"
| "merge_key1 (key1 # keys) key2 repl2 (merged_grammar, key_found) =
     (case map_of merged_grammar key1 of
        Some repl1 \<Rightarrow>
          merge_key1 keys key2 repl2
            (merge_repl key1 key2 repl1 repl2 (merged_grammar, key_found))
      | None \<Rightarrow> merge_key1 keys key2 repl2 (merged_grammar, key_found))"

fun merge_key2 :: "grammar \<Rightarrow> grammar \<Rightarrow> grammar" where
  "merge_key2 [] merged_grammar = merged_grammar"
| "merge_key2 ((key2, repl2) # rules2) merged_grammar =
     (case merge_key1 (map fst merged_grammar) key2 repl2 (merged_grammar, False) of
        (merged_grammar', key_found) \<Rightarrow>
          merge_key2 rules2
            (if \<not> key_found then AList.update key2 repl2 merged_grammar'
             else merged_grammar'))"

definition merge_grammars :: "grammar \<Rightarrow> grammar \<Rightarrow> grammar" where
  "merge_grammars g1 g2 = merge_key2 g2 g1"

text \<open>
  \<^verbatim>\<open>get_merged_grammar\<close>: the loop over the inputs with the accumulator
  \<^verbatim>\<open>merged_grammar\<close>, which starts as \<^verbatim>\<open>None\<close>. When the function is entered with
  the hook installed, its own frame is traced. As for \<^verbatim>\<open>get_grammar\<close>, the only
  events of the frame that reach a record still in use are the exception event and the
  return event when an exception of the callable passes through; an exception that
  \<^verbatim>\<open>get_grammar\<close> raises itself comes when the hook has been reset. The locals at that
  point are \<^verbatim>\<open>function\<close>, \<^verbatim>\<open>inputs\<close>, \<^verbatim>\<open>merged_grammar\<close>, \<^verbatim>\<open>input\<close> and, from
  the second turn of the loop on, \<^verbatim>\<open>grammar\<close>.
\<close>

definition get_merged_grammar_locals :: "grammar option \<Rightarrow> string \<Rightarrow> frame" where
  "get_merged_grammar_locals merged_grammar inp =
     (case merged_grammar of
        None \<Rightarrow>
          [(''function'', PyObject), (''inputs'', PyObject), (''merged_grammar'', PyNone),
           (''input'', PyStr inp)]
      | Some m \<Rightarrow>
          [(''function'', PyObject), (''inputs'', PyObject), (''merged_grammar'', PyObject),
           (''input'', PyStr inp), (''grammar'', PyObject)])"

fun merge_inputs ::
  "'c callable \<Rightarrow> bool \<Rightarrow> string list \<Rightarrow> grammar option \<Rightarrow> 'c state \<Rightarrow>
     (error + grammar option) \<times> 'c state" where
  "merge_inputs func traced [] merged_grammar g = (Inr merged_grammar, g)"
| "merge_inputs func traced (inp # inputs) merged_grammar g =
     (case get_grammar func inp g of
        (Inl (Raised e), g') \<Rightarrow>
          (let own = get_merged_grammar_locals merged_grammar inp
           in (Inl (Raised e), frame_events traced [own, own] g'))
      | (Inl (KeyError k), g') \<Rightarrow> (Inl (KeyError k), g')
      | (Inr grammar, g') \<Rightarrow>
          merge_inputs func traced inputs
            (case merged_grammar of
               None \<Rightarrow> Some grammar
             | Some m \<Rightarrow> Some (merge_grammars m grammar)) g')"

definition get_merged_grammar ::
  "'c callable \<Rightarrow> string list \<Rightarrow> 'c state \<Rightarrow> (error + grammar option) \<times> 'c state" where
  "get_merged_grammar func inputs g =
     merge_inputs func (trace_hook g = Traceit) inputs None g"

section \<open>Notions used in the statements\<close>

text \<open>
  The states in which the loop of \<^verbatim>\<open>get_grammar\<close> starts a pass: the first one, and
  the one a promoting pass leaves.
\<close>

inductive pass_reached :: "grammar \<Rightarrow> trace_record \<Rightarrow> grammar \<Rightarrow> trace_record \<Rightarrow> bool"
  for grammar0 :: grammar and values0 :: trace_record where
  first_pass: "pass_reached grammar0 values0 grammar0 values0"
| next_pass: "pass_reached grammar0 values0 grammar vals \<Longrightarrow>
     extract_pass grammar vals = Promoted grammar' vals' \<Longrightarrow>
     pass_reached grammar0 values0 grammar' vals'"

code_pred pass_reached .

text \<open>
  The number of passes of \<^verbatim>\<open>get_grammar\<close> in which a substitution occurs, read off
  the counter of the loop.
\<close>

definition substitution_passes :: "'c callable \<Rightarrow> string \<Rightarrow> 'c state \<Rightarrow> nat" where
  "substitution_passes func inp g =
     (case trace_function func inp g of
        (Inl e, g') \<Rightarrow> 0
      | (Inr values, g') \<Rightarrow> snd (snd (extract_loop [(START_SYMBOL, [inp])] values)))"

text \<open>
  What the scan does to one alternative, and the number of alternatives of a grammar in
  which a value occurs.
\<close>

definition subst_alt :: "string \<Rightarrow> string \<Rightarrow> string \<Rightarrow> string" where
  "subst_alt var value repl =
     (if sublist value repl then replace repl value (nonterminal_str var) else repl)"

definition matches :: "string \<Rightarrow> grammar \<Rightarrow> nat" where
  "matches value grammar = length (filter (sublist value) (concat (map snd grammar)))"

text \<open>
  The reading of the substitution step that replaces the first occurrence only and
  leaves the rest of the alternative as it is (\<^verbatim>\<open>s.replace(old, new, 1)\<close>).
\<close>

fun spec_replace_first :: "string \<Rightarrow> string \<Rightarrow> string \<Rightarrow> string" where
  "spec_replace_first [] old new = (if old = [] then new else [])"
| "spec_replace_first (c # cs) old new =
     (if prefix old (c # cs) then new @ drop (length old) (c # cs)
      else c # spec_replace_first cs old new)"

text \<open>
  The alternatives a grammar lists for a key (none when it has no rule for the key).
\<close>

definition alternatives :: "grammar \<Rightarrow> string \<Rightarrow> string list" where
  "alternatives grammar key = (case map_of grammar key of None \<Rightarrow> [] | Some alts \<Rightarrow> alts)"

text \<open>
  What one turn of \<^verbatim>\<open>for key2 in g2\<close> does to the dictionary, and the rule it leaves
  for \<^verbatim>\<open>key2\<close>, given the rule the dictionary had before.
\<close>

definition merge_step :: "grammar \<Rightarrow> string \<Rightarrow> string list \<Rightarrow> grammar" where
  "merge_step m key2 repl2 =
     (case merge_key1 (map fst m) key2 repl2 (m, False) of
        (m', key_found) \<Rightarrow> if \<not> key_found then AList.update key2 repl2 m' else m')"

definition merged_rule :: "string list option \<Rightarrow> string list \<Rightarrow> string list" where
  "merged_rule rule1 repl2 =
     (case rule1 of
        None \<Rightarrow> repl2
      | Some repl1 \<Rightarrow>
          if repl2 = [] then []
          else (case filter (\<lambda>repl. repl \<notin> set repl1) repl2 of
                  [] \<Rightarrow> repl1
                | new # news \<Rightarrow> repl1 @ [last (new # news)]))"

text \<open>
  Expansion of a grammar whose rules have one alternative each: one step replaces one
  reference to a nonterminal by the single body of its rule; \<open>derives\<close> is any number
  of steps.
\<close>

inductive expands :: "grammar \<Rightarrow> string \<Rightarrow> string \<Rightarrow> bool" for grammar :: grammar where
  expand: "map_of grammar key = Some [body] \<Longrightarrow> expands grammar (u @ key @ v) (u @ body @ v)"

code_pred expands .

definition derives :: "grammar \<Rightarrow> string \<Rightarrow> string \<Rightarrow> bool" where
  "derives grammar s t = (expands grammar)\<^sup>*\<^sup>* s t"

text \<open>
  The grammar with the pending rules added, which is what the promotion of a pass makes
  of it; the keys of the pending rules; grammars whose rules have exactly one alternative.
\<close>

definition with_rules :: "grammar \<Rightarrow> new_rule list \<Rightarrow> grammar" where
  "with_rules grammar new_rules =
     foldl (\<lambda>g r. case r of (var, alt_key, value) \<Rightarrow> AList.update alt_key [value] g)
       grammar new_rules"

definition alt_keys :: "new_rule list \<Rightarrow> string set" where
  "alt_keys nr = (\<lambda>r. fst (snd r)) ` set nr"

definition single_alternatives :: "grammar \<Rightarrow> bool" where
  "single_alternatives G = (\<forall>key alts. map_of G key = Some alts \<longrightarrow> length alts = 1)"

text \<open>
  What a scan preserves, from the grammar and pending rules it starts with to those it
  ends with: every expansion stays possible once the pending rules are added; a rule
  with one alternative keeps one, from which the old one can be derived; the keys are
  the same; a new pending rule is for a variable of the scanned record and has the
  nonterminal of that variable as its key.
\<close>

definition scan_ok ::
  "grammar \<Rightarrow> new_rule list \<Rightarrow> grammar \<Rightarrow> new_rule list \<Rightarrow> trace_record \<Rightarrow> bool" where
  "scan_ok G nr G' nr' vs \<longleftrightarrow>
     (\<forall>s t. derives (with_rules G nr) s t \<longrightarrow> derives (with_rules G' nr') s t) \<and>
     (\<forall>key body. map_of G key = Some [body] \<longrightarrow>
        (\<exists>body'. map_of G' key = Some [body'] \<and> derives (with_rules G' nr') body' body)) \<and>
     fst ` set G' = fst ` set G \<and>
     (\<forall>r \<in> set nr'. r \<in> set nr \<or>
        (fst (snd r) = nonterminal_str (fst r) \<and> fst r \<in> fst ` set vs)) \<and>
     (single_alternatives G \<longrightarrow> single_alternatives G')"

text \<open>
  The invariant of the loop of \<^verbatim>\<open>get_grammar\<close> for the input \<open>inp\<close>: the rules
  have one alternative each, the input can be derived from the start rule's alternative,
  and the nonterminals of the variables still in the record are pairwise different and
  are not keys of the grammar.
\<close>

definition extract_inv :: "string \<Rightarrow> grammar \<Rightarrow> trace_record \<Rightarrow> bool" where
  "extract_inv inp G vals \<longleftrightarrow>
     single_alternatives G \<and>
     (\<exists>alt. map_of G START_SYMBOL = Some [alt] \<and> derives G alt inp) \<and>
     distinct (map (\<lambda>p. nonterminal_str (fst p)) vals) \<and>
     (\<forall>p \<in> set vals. nonterminal_str (fst p) \<notin> fst ` set G)"

text \<open>
  A key of the shape the extractor produces from a name without angle brackets; a
  grammar all of whose keys have that shape; a string in which no nonterminal of the
  grammar occurs, so that no expansion step applies to it.
\<close>

definition bracketed :: "string \<Rightarrow> bool" where
  "bracketed key \<longleftrightarrow>
     (\<exists>name. key = CHR ''<'' # name @ [CHR ''>''] \<and>
             CHR ''<'' \<notin> set name \<and> CHR ''>'' \<notin> set name)"

definition bracketed_keys :: "grammar \<Rightarrow> bool" where
  "bracketed_keys G \<longleftrightarrow> (\<forall>key \<in> fst ` set G. bracketed key)"

definition fully_expanded :: "grammar \<Rightarrow> string \<Rightarrow> bool" where
  "fully_expanded grammar s \<longleftrightarrow> (\<forall>key \<in> fst ` set grammar. \<not> sublist key s)"

text \<open>
  For the statements about the record. The frames shown to the hook while the record
  of a call of \<^verbatim>\<open>trace_function\<close> is in place, in the order of the events: the frames
  of the callable, and around them the events of the frame of \<^verbatim>\<open>trace_function\<close>
  itself when it was entered with the hook installed. The qualifying string values that
  the observations \<open>obs\<close> bind to the name \<open>var\<close>, in the order they were observed.
\<close>

definition observed :: "'c callable \<Rightarrow> string \<Rightarrow> 'c state \<Rightarrow> frame list" where
  "observed func inp g =
     (case fst (func inp (hidden g)) of
        (frames, out) \<Rightarrow>
          if trace_hook g = Traceit
          then [trace_function_locals inp, trace_function_locals inp] @ frames @
               (case out of
                  Returns v \<Rightarrow> [trace_function_locals inp @ [(''o'', v)]]
                | Raises e \<Rightarrow> [trace_function_locals inp, trace_function_locals inp])
          else frames)"

definition qualifying :: "string \<Rightarrow> string \<Rightarrow> (string \<times> pyvalue) list \<Rightarrow> string list" where
  "qualifying inp var obs =
     concat (map (\<lambda>b. case b of
                         (v, PyStr s) \<Rightarrow>
                           if v = var \<and> 2 \<le> length s \<and> sublist s inp then [s] else []
                       | (v, _) \<Rightarrow> []) obs)"

text \<open>
  The callables used as concrete inputs below, each given by the frames it shows: one
  that raises, one that binds a name twice, one with a value inside another, one whose
  values make a later value occur in two rules, one with two names that differ in case
  only, and one run on an input that has a nonterminal in it. They keep no state. The
  last one keeps a cache of the arguments it has seen, as a function wrapped in
  \<^verbatim>\<open>functools.lru_cache\<close> does: on a miss the cached helper runs and binds \<^verbatim>\<open>head\<close>
  before the caller binds \<^verbatim>\<open>tail\<close> and then \<^verbatim>\<open>head\<close>; on a hit the helper does not
  run and only the caller is seen. The value it returns is the same either way.
\<close>

definition raising_callable :: "unit callable" where
  "raising_callable s c = (([[(''s'', PyStr s)]], Raises ''ZeroDivisionError''), c)"

definition rebinding_callable :: "unit callable" where
  "rebinding_callable s c =
     (([[(''s'', PyStr s), (''n'', PyInt 2)],
        [(''s'', PyStr s), (''part'', PyStr (take 2 s)), (''c'', PyStr (take 1 s))],
        [(''part'', PyStr (drop 2 s)), (''other'', PyStr ''zz'')]], Returns PyNone), c)"

definition short_callable :: "unit callable" where
  "short_callable s c =
     (([[(''text'', PyStr s)],
        [(''text'', PyStr s), (''head'', PyStr (take 2 s)), (''n'', PyInt 2)]], Returns PyNone), c)"

definition dup_callable :: "unit callable" where
  "dup_callable s c =
     (([[(''p'', PyStr (take 3 s)), (''r'', PyStr (drop 4 s)), (''q'', PyStr (take 2 s))]],
       Returns PyNone), c)"

definition clash_callable :: "unit callable" where
  "clash_callable s c =
     (([[(''A'', PyStr (take 2 s)), (''a'', PyStr (drop 2 s))]], Returns PyNone), c)"

definition bracket_callable :: "unit callable" where
  "bracket_callable s c = (([[(''x'', PyStr (drop 3 s))]], Returns PyNone), c)"

definition caching_callable :: "string list callable" where
  "caching_callable url cache =
     (if url \<in> set cache
      then (([[(''url'', PyStr url)],
              [(''url'', PyStr url), (''tail'', PyStr (drop 1 url))],
              [(''url'', PyStr url), (''tail'', PyStr (drop 1 url)),
               (''head'', PyStr (take 2 url))]], Returns PyObject), cache)
      else (([[(''url'', PyStr url)],
              [(''url'', PyStr url), (''head'', PyStr (take 2 url))],
              [(''url'', PyStr url), (''tail'', PyStr (drop 1 url))],
              [(''url'', PyStr url), (''tail'', PyStr (drop 1 url)),
               (''head'', PyStr (take 2 url))]], Returns PyObject), url # cache))"

text \<open>
  The states used as concrete inputs: the state of a fresh interpreter, for a callable
  without state and for the caching one, and the state in which a call of
  \<^verbatim>\<open>trace_function\<close> on a raising callable leaves the interpreter, with the hook
  installed.
\<close>

definition g0 :: "unit state" where
  "g0 = \<lparr>the_values = [], the_input = [], trace_hook = NoHook, hidden = ()\<rparr>"

definition cold_cache :: "string list state" where
  "cold_cache = \<lparr>the_values = [], the_input = [], trace_hook = NoHook, hidden = []\<rparr>"

definition hooked :: "unit state" where
  "hooked = \<lparr>the_values = [(''s'', ''ab'')], the_input = ''ab'', trace_hook = Traceit,
              hidden = ()\<rparr>"

section \<open>Properties of the tracer\<close>

lemma traceit_fields [simp]:
  "the_input (traceit fr g) = the_input g"
  "trace_hook (traceit fr g) = trace_hook g"
  "hidden (traceit fr g) = hidden g"
  "the_values (traceit fr g) = foldl (traceit_var (the_input g)) (the_values g) fr"
  by (simp_all add: traceit_def)

lemma foldl_traceit_input [simp]:
  "the_input (foldl (\<lambda>g' fr. traceit fr g') g frames) = the_input g"
  by (induction frames arbitrary: g) simp_all

lemma foldl_traceit_hook [simp]:
  "trace_hook (foldl (\<lambda>g' fr. traceit fr g') g frames) = trace_hook g"
  by (induction frames arbitrary: g) simp_all

lemma foldl_traceit_hidden [simp]:
  "hidden (foldl (\<lambda>g' fr. traceit fr g') g frames) = hidden g"
  by (induction frames arbitrary: g) simp_all

lemma foldl_traceit_values:
  "the_values (foldl (\<lambda>g' fr. traceit fr g') g frames) =
     foldl (traceit_var (the_input g)) (the_values g) (concat frames)"
  by (induction frames arbitrary: g) simp_all

lemma frame_events_fields [simp]:
  "the_input (frame_events traced frames g) = the_input g"
  "trace_hook (frame_events traced frames g) = trace_hook g"
  "hidden (frame_events traced frames g) = hidden g"
  by (simp_all add: frame_events_def)

lemma frame_events_values:
  "the_values (frame_events traced frames g) =
     (if traced then foldl (traceit_var (the_input g)) (the_values g) (concat frames)
      else the_values g)"
  by (simp add: frame_events_def foldl_traceit_values)

lemma trace_function_Returns:
  assumes "snd (fst (func inp (hidden g))) = Returns v"
  shows "trace_function func inp g =
           (Inr (foldl (traceit_var inp) [] (concat (observed func inp g))),
            \<lparr>the_values = foldl (traceit_var inp) [] (concat (observed func inp g)),
             the_input = inp, trace_hook = NoHook, hidden = snd (func inp (hidden g))\<rparr>)"
proof -
  obtain frames c where f: "func inp (hidden g) = ((frames, Returns v), c)"
    using assms by (cases "func inp (hidden g)") (auto simp: prod_eq_iff)
  let ?R = "foldl (traceit_var inp) [] (concat (observed func inp g))"
  obtain r g' where t: "trace_function func inp g = (r, g')"
    by (cases "trace_function func inp g")
  have g': "g' = snd (trace_function func inp g)" and r: "r = fst (trace_function func inp g)"
    using t by simp_all
  have v: "the_values g' = ?R"
    unfolding g' by (simp add: trace_function_def call_def Let_def f frame_events_values observed_def)
  have "r = Inr (the_values g')"
    unfolding g' r by (simp add: trace_function_def call_def Let_def f)
  moreover have "g' = \<lparr>the_values = ?R, the_input = inp, trace_hook = NoHook,
                        hidden = snd (func inp (hidden g))\<rparr>"
  proof (rule state.equality)
    show "the_values g' = the_values \<lparr>the_values = ?R, the_input = inp, trace_hook = NoHook,
                        hidden = snd (func inp (hidden g))\<rparr>"
      using v by simp
  qed (simp_all add: g' trace_function_def call_def Let_def f)
  ultimately show ?thesis using t v by simp
qed

lemma trace_function_Raises:
  assumes "snd (fst (func inp (hidden g))) = Raises e"
  shows "trace_function func inp g =
           (Inl (Raised e),
            \<lparr>the_values = foldl (traceit_var inp) [] (concat (observed func inp g)),
             the_input = inp, trace_hook = Traceit, hidden = snd (func inp (hidden g))\<rparr>)"
proof -
  obtain frames c where f: "func inp (hidden g) = ((frames, Raises e), c)"
    using assms by (cases "func inp (hidden g)") (auto simp: prod_eq_iff)
  let ?R = "foldl (traceit_var inp) [] (concat (observed func inp g))"
  obtain r g' where t: "trace_function func inp g = (r, g')"
    by (cases "trace_function func inp g")
  have g': "g' = snd (trace_function func inp g)" and r: "r = fst (trace_function func inp g)"
    using t by simp_all
  have v: "the_values g' = ?R"
    unfolding g' by (simp add: trace_function_def call_def Let_def f frame_events_values observed_def)
  have "r = Inl (Raised e)"
    unfolding r by (simp add: trace_function_def call_def Let_def f)
  moreover have "g' = \<lparr>the_values = ?R, the_input = inp, trace_hook = Traceit,
                        hidden = snd (func inp (hidden g))\<rparr>"
  proof (rule state.equality)
    show "the_values g' = the_values \<lparr>the_values = ?R, the_input = inp, trace_hook = Traceit,
                        hidden = snd (func inp (hidden g))\<rparr>"
      using v by simp
  qed (simp_all add: g' trace_function_def call_def Let_def f)
  ultimately show ?thesis using t by simp
qed

lemma qualifying_Nil [simp]: "qualifying inp var [] = []"
  by (simp add: qualifying_def)

lemma qualifying_snoc:
  "qualifying inp var (obs @ [b]) = qualifying inp var obs @ qualifying inp var [b]"
  by (simp add: qualifying_def)

lemma map_of_traceit_var:
  "map_of (traceit_var inp vals b) var =
     (case qualifying inp var [b] of [] \<Rightarrow> map_of vals var | s # ss \<Rightarrow> Some s)"
proof (cases b)
  case (Pair v val)
  then show ?thesis
    by (cases val) (simp_all add: qualifying_def update_conv')
qed

lemma qualifying_single: "qualifying inp var [b] = [] \<or> (\<exists>s. qualifying inp var [b] = [s])"
proof (cases b)
  case (Pair v val)
  then show ?thesis by (cases val) (simp_all add: qualifying_def)
qed

lemma case_snoc_last:
  "(case xs @ [s] of [] \<Rightarrow> a | y # ys \<Rightarrow> Some (last (y # ys))) = Some s"
  by (cases xs) simp_all

lemma map_of_foldl_traceit_var:
  "map_of (foldl (traceit_var inp) vals obs) var =
     (case qualifying inp var obs of [] \<Rightarrow> map_of vals var | s # ss \<Rightarrow> Some (last (s # ss)))"
proof (induction obs rule: rev_induct)
  case Nil
  then show ?case by simp
next
  case (snoc b obs)
  from qualifying_single [of inp var b] show ?case
  proof
    assume e: "qualifying inp var [b] = []"
    then show ?thesis
      using snoc by (simp add: qualifying_snoc map_of_traceit_var)
  next
    assume "\<exists>s. qualifying inp var [b] = [s]"
    then obtain s where s: "qualifying inp var [b] = [s]" ..
    then show ?thesis
      by (simp add: qualifying_snoc map_of_traceit_var case_snoc_last)
  qed
qed

lemma set_qualifying:
  "s \<in> set (qualifying inp var obs) \<longleftrightarrow>
     (var, PyStr s) \<in> set obs \<and> 2 \<le> length s \<and> sublist s inp"
proof (induction obs)
  case Nil
  then show ?case by simp
next
  case (Cons b obs)
  obtain v val where b: "b = (v, val)" by (cases b)
  have "qualifying inp var (b # obs) = qualifying inp var [b] @ qualifying inp var obs"
    by (simp add: qualifying_def)
  then show ?case
    using Cons b by (cases val) (auto simp: qualifying_def)
qed

text \<open>
  C7 (last write wins). When the traced call returns, the record that
  \<^verbatim>\<open>trace_function\<close> hands back maps a name to the qualifying value observed last for
  that name, whatever frame it was observed in, and to nothing when no qualifying value
  was observed for the name. The observations are the bindings of all frames shown to
  the hook during the call, in the order of the trace events; this holds in every state
  the call may start in, with or without a hook installed.
\<close>

theorem trace_function_last_write_wins:
  assumes "snd (fst (func inp (hidden g))) = Returns v"
  shows "\<exists>vals g'. trace_function func inp g = (Inr vals, g') \<and>
           (\<forall>var. map_of vals var =
              (case qualifying inp var (concat (observed func inp g)) of
                 [] \<Rightarrow> None
               | s # ss \<Rightarrow> Some (last (s # ss))))"
  using assms trace_function_Returns [of func inp g v]
  by (simp add: map_of_foldl_traceit_var split: list.split)

theorem trace_function_last_write_wins_witness:
  "snd (fst (rebinding_callable ''abcd'' (hidden g0))) = Returns PyNone \<and>
   (\<exists>vals g'. trace_function rebinding_callable ''abcd'' g0 = (Inr vals, g') \<and>
     map_of vals ''part'' = Some ''cd'' \<and> map_of vals ''c'' = None \<and> map_of vals ''other'' = None)"
proof -
  have r: "snd (fst (rebinding_callable ''abcd'' (hidden g0))) = Returns PyNone"
    by (simp add: rebinding_callable_def)
  from trace_function_last_write_wins [of rebinding_callable "''abcd''" g0 PyNone] r
  obtain vals g' where t: "trace_function rebinding_callable ''abcd'' g0 = (Inr vals, g')"
    and m: "\<And>var. map_of vals var =
              (case qualifying ''abcd'' var (concat (observed rebinding_callable ''abcd'' g0)) of
                 [] \<Rightarrow> None | s # ss \<Rightarrow> Some (last (s # ss)))"
    by blast
  have o: "observed rebinding_callable ''abcd'' g0 = fst (fst (rebinding_callable ''abcd'' ()))"
    by (simp add: observed_def g0_def rebinding_callable_def)
  have "map_of vals ''part'' = Some ''cd''"
    by (simp add: m o rebinding_callable_def qualifying_def sublist_code)
  moreover have "map_of vals ''c'' = None"
    by (simp add: m o rebinding_callable_def qualifying_def sublist_code)
  moreover have "map_of vals ''other'' = None"
    by (simp add: m o rebinding_callable_def qualifying_def sublist_code)
  ultimately show ?thesis using r t by blast
qed

lemma distinct_traceit_var:
  "distinct (map fst vals) \<Longrightarrow> distinct (map fst (traceit_var inp vals b))"
proof (cases b)
  case (Pair v val)
  assume "distinct (map fst vals)"
  then show ?thesis using Pair by (cases val) (simp_all add: distinct_update)
qed

lemma distinct_foldl_traceit_var:
  "distinct (map fst vals) \<Longrightarrow> distinct (map fst (foldl (traceit_var inp) vals obs))"
  by (induction obs arbitrary: vals) (simp_all add: distinct_traceit_var)

lemma last_qualifying_in_set:
  assumes "(case qualifying inp var obs of [] \<Rightarrow> None | s # ss \<Rightarrow> Some (last (s # ss))) = Some t"
  shows "(var, PyStr t) \<in> set obs \<and> 2 \<le> length t \<and> sublist t inp"
proof -
  from assms have "qualifying inp var obs \<noteq> []" and "t = last (qualifying inp var obs)"
    by (auto split: list.splits)
  then have "t \<in> set (qualifying inp var obs)" by simp
  then show ?thesis by (simp add: set_qualifying)
qed

text \<open>
  C4 (recording filter). When the traced call returns, \<^verbatim>\<open>trace_function\<close> returns a
  record and no error. Every entry of the record is a binding that was observed with a
  string value of length at least 2 that is a substring of the input; and a name is in
  the record exactly when some observed binding of it has such a value. So a value that
  is not a string, a string of length 1 or 0, and a string that does not occur in the
  input are all left out, silently. The observed bindings are those of the frames shown
  to the hook during the call, in every state the call may start in: entered with the
  hook installed, the call also observes the locals of \<^verbatim>\<open>trace_function\<close> itself, and
  the same filter decides about them.
\<close>

theorem traceit_recording_filter:
  assumes "snd (fst (func inp (hidden g))) = Returns v"
  shows "\<exists>vals g'. trace_function func inp g = (Inr vals, g') \<and>
           (\<forall>var s. (var, s) \<in> set vals \<longrightarrow>
              (var, PyStr s) \<in> set (concat (observed func inp g)) \<and>
              2 \<le> length s \<and> sublist s inp) \<and>
           (\<forall>var. var \<in> fst ` set vals \<longleftrightarrow>
              (\<exists>s. (var, PyStr s) \<in> set (concat (observed func inp g)) \<and>
                   2 \<le> length s \<and> sublist s inp))"
proof -
  let ?obs = "concat (observed func inp g)"
  let ?vals = "foldl (traceit_var inp) [] ?obs"
  have d: "distinct (map fst ?vals)"
    by (rule distinct_foldl_traceit_var) simp
  have m: "map_of ?vals var =
      (case qualifying inp var ?obs of [] \<Rightarrow> None | s # ss \<Rightarrow> Some (last (s # ss)))" for var
    by (simp add: map_of_foldl_traceit_var split: list.split)
  have a: "(var, PyStr s) \<in> set ?obs \<and> 2 \<le> length s \<and> sublist s inp"
    if "(var, s) \<in> set ?vals" for var s
  proof -
    from that d have "map_of ?vals var = Some s" by simp
    then show ?thesis using m [of var] last_qualifying_in_set [of inp var ?obs s] by simp
  qed
  have b: "var \<in> fst ` set ?vals \<longleftrightarrow>
      (\<exists>s. (var, PyStr s) \<in> set ?obs \<and> 2 \<le> length s \<and> sublist s inp)" for var
  proof
    assume "var \<in> fst ` set ?vals"
    then obtain s where "(var, s) \<in> set ?vals" by force
    then show "\<exists>s. (var, PyStr s) \<in> set ?obs \<and> 2 \<le> length s \<and> sublist s inp"
      using a by blast
  next
    assume "\<exists>s. (var, PyStr s) \<in> set ?obs \<and> 2 \<le> length s \<and> sublist s inp"
    then obtain s where "s \<in> set (qualifying inp var ?obs)"
      by (auto simp: set_qualifying)
    then have "qualifying inp var ?obs \<noteq> []" by auto
    then have "map_of ?vals var \<noteq> None"
      using m [of var] by (auto split: list.splits)
    then show "var \<in> fst ` set ?vals"
      by (simp add: map_of_eq_None_iff)
  qed
  show ?thesis
    using trace_function_Returns [of func inp g v] assms a b by blast
qed

theorem traceit_recording_filter_witness:
  "snd (fst (rebinding_callable ''abcd'' (hidden hooked))) = Returns PyNone \<and>
   (\<exists>vals g'. trace_function rebinding_callable ''abcd'' hooked = (Inr vals, g') \<and>
      ''s'' \<in> fst ` set vals \<and> ''input'' \<in> fst ` set vals \<and> ''c'' \<notin> fst ` set vals \<and>
      ''n'' \<notin> fst ` set vals \<and> ''o'' \<notin> fst ` set vals \<and> ''other'' \<notin> fst ` set vals)"
proof -
  have r: "snd (fst (rebinding_callable ''abcd'' (hidden hooked))) = Returns PyNone"
    by (simp add: rebinding_callable_def)
  from traceit_recording_filter [of rebinding_callable "''abcd''" hooked PyNone] r
  obtain vals g' where t: "trace_function rebinding_callable ''abcd'' hooked = (Inr vals, g')"
    and m: "\<And>var. var \<in> fst ` set vals \<longleftrightarrow>
      (\<exists>s. (var, PyStr s) \<in> set (concat (observed rebinding_callable ''abcd'' hooked)) \<and>
           2 \<le> length s \<and> sublist s ''abcd'')"
    by blast
  have o: "concat (observed rebinding_callable ''abcd'' hooked) =
      [(''function'', PyObject), (''input'', PyStr ''abcd''),
       (''function'', PyObject), (''input'', PyStr ''abcd''),
       (''s'', PyStr ''abcd''), (''n'', PyInt 2),
       (''s'', PyStr ''abcd''), (''part'', PyStr ''ab''), (''c'', PyStr ''a''),
       (''part'', PyStr ''cd''), (''other'', PyStr ''zz''),
       (''function'', PyObject), (''input'', PyStr ''abcd''), (''o'', PyNone)]"
    by (simp add: observed_def hooked_def rebinding_callable_def trace_function_locals_def)
  have "''s'' \<in> fst ` set vals"
    unfolding m o by (rule exI [of _ "''abcd''"]) simp
  moreover have "''input'' \<in> fst ` set vals"
    unfolding m o by (rule exI [of _ "''abcd''"]) simp
  moreover have "''c'' \<notin> fst ` set vals"
    unfolding m o by auto
  moreover have "''n'' \<notin> fst ` set vals"
    unfolding m o by auto
  moreover have "''o'' \<notin> fst ` set vals"
    unfolding m o by auto
  moreover have "''other'' \<notin> fst ` set vals"
    unfolding m o by (auto simp: sublist_code)
  ultimately show ?thesis using r t by blast
qed

text \<open>
  C5 (exception exit). The claim asks that the hook be reset before an exception of the
  callable reaches the caller. In \<^verbatim>\<open>trace_function\<close> the reset
  \<^verbatim>\<open>sys.settrace(None)\<close> is the statement after the call, outside any
  \<^verbatim>\<open>try\<close>/\<^verbatim>\<open>finally\<close>: on a callable that raises, the exception propagates
  and the hook stays installed. The evaluation below is at a callable with one traced
  frame that raises \<^verbatim>\<open>ZeroDivisionError\<close>.
\<close>

theorem trace_function_exception_leaves_hook:
  "trace_function raising_callable ''ab'' g0 =
     (Inl (Raised ''ZeroDivisionError''),
      \<lparr>the_values = [(''s'', ''ab'')], the_input = ''ab'', trace_hook = Traceit,
       hidden = ()\<rparr>)"
  by (simp add: trace_function_def raising_callable_def call_def g0_def traceit_def
      frame_events_def sublist_code)

lemma trace_function_return_resets_hook:
  "snd (fst (func inp (hidden g))) = Returns v \<Longrightarrow>
     trace_hook (snd (trace_function func inp g)) = NoHook"
  by (simp add: trace_function_Returns)

lemma trace_function_raise_leaves_hook:
  "snd (fst (func inp (hidden g))) = Raises e \<Longrightarrow>
     trace_hook (snd (trace_function func inp g)) = Traceit"
  by (simp add: trace_function_Raises)

section \<open>Properties of the extractor\<close>

text \<open>
  The events of the frames of \<^verbatim>\<open>get_grammar\<close> and \<^verbatim>\<open>get_merged_grammar\<close> on the
  way out of an exception find the record as the last events of \<^verbatim>\<open>trace_function\<close>
  left it: the only string among their locals is \<^verbatim>\<open>input\<close>, which the record then
  holds already.
\<close>

lemma traceit_input_again:
  assumes "set fr \<subseteq> {(''input'', PyStr (the_input g))} \<union> UNIV \<times> {PyObject, PyNone}"
    and "2 \<le> length (the_input g) \<Longrightarrow> map_of (the_values g) ''input'' = Some (the_input g)"
  shows "traceit fr g = g"
proof -
  have "foldl (traceit_var (the_input g)) (the_values g) fr = the_values g"
    using assms(1)
  proof (induction fr)
    case Nil
    then show ?case by simp
  next
    case (Cons b fr)
    obtain var val where b: "b = (var, val)" by (cases b)
    have "traceit_var (the_input g) (the_values g) b = the_values g"
    proof (cases val)
      case (PyStr s)
      then have "var = ''input''" and "s = the_input g" using Cons.prems b by auto
      then show ?thesis using b PyStr assms(2) by (simp add: update_triv)
    qed (simp_all add: b)
    then show ?case using Cons by simp
  qed
  then show ?thesis by (simp add: traceit_def)
qed

lemma frame_events_input_again:
  assumes "\<forall>fr \<in> set frames.
             set fr \<subseteq> {(''input'', PyStr (the_input g))} \<union> UNIV \<times> {PyObject, PyNone}"
    and "2 \<le> length (the_input g) \<Longrightarrow> map_of (the_values g) ''input'' = Some (the_input g)"
  shows "frame_events traced frames g = g"
proof -
  have "foldl (\<lambda>g' fr. traceit fr g') g frames = g"
    using assms(1)
  proof (induction frames)
    case Nil
    then show ?case by simp
  next
    case (Cons fr frames)
    have "traceit fr g = g"
      using Cons.prems assms(2) by (intro traceit_input_again) simp_all
    then show ?case using Cons by simp
  qed
  then show ?thesis by (simp add: frame_events_def)
qed

lemma raised_record_input:
  assumes "snd (fst (func inp (hidden g))) = Raises e" and "trace_hook g = Traceit"
    and "2 \<le> length inp"
  shows "map_of (foldl (traceit_var inp) [] (concat (observed func inp g))) ''input'' = Some inp"
proof -
  obtain frames c where f: "func inp (hidden g) = ((frames, Raises e), c)"
    using assms(1) by (cases "func inp (hidden g)") (auto simp: prod_eq_iff)
  show ?thesis
    using assms(2,3)
    by (simp add: observed_def f trace_function_locals_def update_conv')
qed

lemma get_grammar_Returns:
  assumes "snd (fst (func inp (hidden g))) = Returns v"
  shows "get_grammar func inp g =
           (case extract_loop [(START_SYMBOL, [inp])]
                   (foldl (traceit_var inp) [] (concat (observed func inp g))) of
              (res, values', n) \<Rightarrow>
                (res, \<lparr>the_values = values', the_input = inp, trace_hook = NoHook,
                       hidden = snd (func inp (hidden g))\<rparr>))"
  using assms by (simp add: get_grammar_def trace_function_Returns [of func inp g v] split: prod.split)

lemma get_grammar_Raises:
  assumes "snd (fst (func inp (hidden g))) = Raises e"
  shows "get_grammar func inp g =
           (Inl (Raised e),
            \<lparr>the_values = foldl (traceit_var inp) [] (concat (observed func inp g)),
             the_input = inp, trace_hook = Traceit, hidden = snd (func inp (hidden g))\<rparr>)"
proof -
  let ?g' = "\<lparr>the_values = foldl (traceit_var inp) [] (concat (observed func inp g)),
             the_input = inp, trace_hook = Traceit, hidden = snd (func inp (hidden g))\<rparr>"
  have "frame_events (trace_hook g = Traceit) [get_grammar_locals inp, get_grammar_locals inp] ?g'
          = ?g'"
  proof (cases "trace_hook g = Traceit")
    case True
    show ?thesis
      by (rule frame_events_input_again)
        (use assms True in \<open>auto simp: get_grammar_locals_def raised_record_input [of func inp g e]\<close>)
  next
    case False
    then show ?thesis by (simp add: frame_events_def)
  qed
  then show ?thesis
    using assms by (simp add: get_grammar_def trace_function_Raises [of func inp g e])
qed

lemma outcome_cases:
  obtains v where "snd (fst (func inp c)) = Returns v" | e where "snd (fst (func inp c)) = Raises e"
  by (cases "snd (fst (func inp c))") auto

lemma get_grammar_hook:
  "trace_hook (snd (get_grammar func inp g)) =
     (case snd (fst (func inp (hidden g))) of Returns v \<Rightarrow> NoHook | Raises e \<Rightarrow> Traceit)"
  by (rule outcome_cases [of func inp "hidden g"])
    (simp_all add: get_grammar_Returns get_grammar_Raises split: prod.split)

lemma get_grammar_hidden:
  "hidden (snd (get_grammar func inp g)) = snd (func inp (hidden g))"
  by (rule outcome_cases [of func inp "hidden g"])
    (simp_all add: get_grammar_Returns get_grammar_Raises split: prod.split)

lemma short_grammar:
  "get_grammar short_callable ''abcd'' g0 =
     (Inr [(START_SYMBOL, [''<text>'']), (''<text>'', [''<head>cd'']), (''<head>'', [''ab''])],
      \<lparr>the_values = [], the_input = ''abcd'', trace_hook = NoHook, hidden = ()\<rparr>)"
proof -
  have r: "snd (fst (short_callable ''abcd'' (hidden g0))) = Returns PyNone"
    by (simp add: short_callable_def)
  show ?thesis
    apply (simp only: get_grammar_Returns [of short_callable "''abcd''" g0 PyNone, OF r])
    apply (simp add: observed_def g0_def short_callable_def)
    apply code_simp
    done
qed

lemma caching_first:
  "get_grammar caching_callable ''abc'' cold_cache =
     (Inr [(START_SYMBOL, [''<url>'']), (''<url>'', [''<head>c'']), (''<head>'', [''ab''])],
      \<lparr>the_values = [(''tail'', ''bc'')], the_input = ''abc'', trace_hook = NoHook,
       hidden = [''abc'']\<rparr>)"
proof -
  have r: "snd (fst (caching_callable ''abc'' (hidden cold_cache))) = Returns PyObject"
    by (simp add: caching_callable_def cold_cache_def)
  show ?thesis
    apply (simp only: get_grammar_Returns [of caching_callable "''abc''" cold_cache PyObject, OF r])
    apply (simp add: observed_def cold_cache_def caching_callable_def)
    apply code_simp
    done
qed

lemma caching_second:
  "get_grammar caching_callable ''abc''
     \<lparr>the_values = [(''tail'', ''bc'')], the_input = ''abc'', trace_hook = NoHook,
      hidden = [''abc'']\<rparr> =
     (Inr [(START_SYMBOL, [''<url>'']), (''<url>'', [''a<tail>'']), (''<tail>'', [''bc''])],
      \<lparr>the_values = [(''head'', ''ab'')], the_input = ''abc'', trace_hook = NoHook,
       hidden = [''abc'']\<rparr>)"
proof -
  let ?g = "\<lparr>the_values = [(''tail'', ''bc'')], the_input = ''abc'', trace_hook = NoHook,
      hidden = [''abc'']\<rparr>"
  have r: "snd (fst (caching_callable ''abc'' (hidden ?g))) = Returns PyObject"
    by (simp add: caching_callable_def)
  show ?thesis
    apply (simp only: get_grammar_Returns [of caching_callable "''abc''" ?g PyObject, OF r])
    apply (simp add: observed_def caching_callable_def)
    apply code_simp
    done
qed

lemma hooked_grammar:
  "get_grammar short_callable ''abcd'' hooked =
     (Inr [(START_SYMBOL, [''<input>'']), (''<input>'', [''<text>'']),
           (''<text>'', [''<head>cd'']), (''<head>'', [''ab''])],
      \<lparr>the_values = [], the_input = ''abcd'', trace_hook = NoHook, hidden = ()\<rparr>)"
proof -
  have r: "snd (fst (short_callable ''abcd'' (hidden hooked))) = Returns PyNone"
    by (simp add: short_callable_def)
  show ?thesis
    apply (simp only: get_grammar_Returns [of short_callable "''abcd''" hooked PyNone, OF r])
    apply (simp add: observed_def hooked_def short_callable_def trace_function_locals_def)
    apply code_simp
    done
qed

text \<open>
  C8 as stated fails. \<^verbatim>\<open>get_grammar\<close> sees of the callable the frames it shows,
  and these are not determined by the value the callable returns. A callable that
  caches its results returns the same value on the second call but shows other frames,
  the cached helper not running again: on \<^verbatim>\<open>abc\<close> the first call binds \<^verbatim>\<open>head\<close>
  before \<^verbatim>\<open>tail\<close> and the second binds \<^verbatim>\<open>tail\<close> first, and the two grammars have
  different rules. And a first call that is entered with the hook installed (as an
  earlier call that raised leaves it) records the local \<^verbatim>\<open>input\<close> of
  \<^verbatim>\<open>trace_function\<close>, which the second call, entered with the hook reset, does not.
\<close>

theorem get_grammar_rerun_counterexample:
  "fst (caching_callable ''abc'' (hidden cold_cache)) =
     ([[(''url'', PyStr ''abc'')],
       [(''url'', PyStr ''abc''), (''head'', PyStr ''ab'')],
       [(''url'', PyStr ''abc''), (''tail'', PyStr ''bc'')],
       [(''url'', PyStr ''abc''), (''tail'', PyStr ''bc''), (''head'', PyStr ''ab'')]],
      Returns PyObject) \<and>
   fst (get_grammar caching_callable ''abc'' cold_cache) =
     Inr [(START_SYMBOL, [''<url>'']), (''<url>'', [''<head>c'']), (''<head>'', [''ab''])] \<and>
   fst (get_grammar caching_callable ''abc'' (snd (get_grammar caching_callable ''abc'' cold_cache))) =
     Inr [(START_SYMBOL, [''<url>'']), (''<url>'', [''a<tail>'']), (''<tail>'', [''bc''])] \<and>
   hooked = snd (trace_function raising_callable ''ab'' g0) \<and>
   fst (get_grammar short_callable ''abcd'' hooked) =
     Inr [(START_SYMBOL, [''<input>'']), (''<input>'', [''<text>'']),
          (''<text>'', [''<head>cd'']), (''<head>'', [''ab''])] \<and>
   fst (get_grammar short_callable ''abcd'' (snd (get_grammar short_callable ''abcd'' hooked))) =
     Inr [(START_SYMBOL, [''<text>'']), (''<text>'', [''<head>cd'']), (''<head>'', [''ab''])]"
proof -
  have a: "fst (caching_callable ''abc'' (hidden cold_cache)) =
     ([[(''url'', PyStr ''abc'')],
       [(''url'', PyStr ''abc''), (''head'', PyStr ''ab'')],
       [(''url'', PyStr ''abc''), (''tail'', PyStr ''bc'')],
       [(''url'', PyStr ''abc''), (''tail'', PyStr ''bc''), (''head'', PyStr ''ab'')]],
      Returns PyObject)"
    by (simp add: caching_callable_def cold_cache_def)
  have b: "fst (get_grammar caching_callable ''abc'' cold_cache) =
     Inr [(START_SYMBOL, [''<url>'']), (''<url>'', [''<head>c'']), (''<head>'', [''ab''])]"
    by (simp only: caching_first fst_conv)
  have c: "fst (get_grammar caching_callable ''abc''
                 (snd (get_grammar caching_callable ''abc'' cold_cache))) =
     Inr [(START_SYMBOL, [''<url>'']), (''<url>'', [''a<tail>'']), (''<tail>'', [''bc''])]"
    by (simp only: caching_first caching_second fst_conv snd_conv)
  have d: "hooked = snd (trace_function raising_callable ''ab'' g0)"
    by (simp add: trace_function_def raising_callable_def call_def g0_def traceit_def
        frame_events_def sublist_code hooked_def)
  have e: "fst (get_grammar short_callable ''abcd'' hooked) =
     Inr [(START_SYMBOL, [''<input>'']), (''<input>'', [''<text>'']),
          (''<text>'', [''<head>cd'']), (''<head>'', [''ab''])]"
    by (simp only: hooked_grammar fst_conv)
  have "get_grammar short_callable ''abcd''
          \<lparr>the_values = [], the_input = ''abcd'', trace_hook = NoHook, hidden = ()\<rparr> =
        get_grammar short_callable ''abcd'' g0"
    by (simp add: get_grammar_def trace_function_def call_def Let_def g0_def)
  then have f: "fst (get_grammar short_callable ''abcd''
                      (snd (get_grammar short_callable ''abcd'' hooked))) =
     Inr [(START_SYMBOL, [''<text>'']), (''<text>'', [''<head>cd'']), (''<head>'', [''ab''])]"
    by (simp only: hooked_grammar short_grammar fst_conv snd_conv)
  from a b c d e f show ?thesis by (intro conjI)
qed

text \<open>
  C8 as amended (determinism of re-extraction). Take a first call of
  \<^verbatim>\<open>get_grammar\<close> that is entered with no hook installed, and a callable that on the
  second call shows the frames and has the outcome of the first. \<^verbatim>\<open>get_grammar\<close>
  reads and writes the globals of the module, and its deletions reach the global
  record. Still, the second call, made in the state the first call leaves, returns what
  the first call returned: the same grammar, rule for rule and alternative for
  alternative, or the same exception.
\<close>

theorem get_grammar_deterministic:
  assumes "trace_hook g = NoHook"
    and "fst (func inp (snd (func inp (hidden g)))) = fst (func inp (hidden g))"
  shows "fst (get_grammar func inp (snd (get_grammar func inp g))) = fst (get_grammar func inp g)"
proof (rule outcome_cases [of func inp "hidden g"])
  fix v
  assume r: "snd (fst (func inp (hidden g))) = Returns v"
  let ?g' = "snd (get_grammar func inp g)"
  have h: "hidden ?g' = snd (func inp (hidden g))" by (rule get_grammar_hidden)
  have k: "trace_hook ?g' = NoHook" by (simp add: get_grammar_hook r)
  have r': "snd (fst (func inp (hidden ?g'))) = Returns v"
    using r assms(2) by (simp add: h)
  have o: "observed func inp ?g' = observed func inp g"
    using assms by (simp add: observed_def h k)
  have "fst (get_grammar func inp ?g') =
      fst (extract_loop [(START_SYMBOL, [inp])]
             (foldl (traceit_var inp) [] (concat (observed func inp ?g'))))"
    unfolding get_grammar_Returns [of func inp ?g' v, OF r'] by (simp split: prod.split)
  moreover have "fst (get_grammar func inp g) =
      fst (extract_loop [(START_SYMBOL, [inp])]
             (foldl (traceit_var inp) [] (concat (observed func inp g))))"
    unfolding get_grammar_Returns [of func inp g v, OF r] by (simp split: prod.split)
  ultimately show ?thesis by (simp only: o)
next
  fix e
  assume r: "snd (fst (func inp (hidden g))) = Raises e"
  let ?g' = "snd (get_grammar func inp g)"
  have h: "hidden ?g' = snd (func inp (hidden g))" by (rule get_grammar_hidden)
  have r': "snd (fst (func inp (hidden ?g'))) = Raises e"
    using r assms(2) by (simp add: h)
  have "fst (get_grammar func inp ?g') = Inl (Raised e)"
    by (simp only: get_grammar_Raises [of func inp ?g' e, OF r'] fst_conv)
  moreover have "fst (get_grammar func inp g) = Inl (Raised e)"
    by (simp only: get_grammar_Raises [of func inp g e, OF r] fst_conv)
  ultimately show ?thesis by simp
qed

theorem get_grammar_deterministic_witness:
  "trace_hook g0 = NoHook \<and>
   fst (short_callable ''abcd'' (snd (short_callable ''abcd'' (hidden g0)))) =
     fst (short_callable ''abcd'' (hidden g0)) \<and>
   fst (get_grammar short_callable ''abcd'' (snd (get_grammar short_callable ''abcd'' g0))) =
     Inr [(START_SYMBOL, [''<text>'']), (''<text>'', [''<head>cd'']), (''<head>'', [''ab''])]"
proof -
  have h: "trace_hook g0 = NoHook"
    by (simp add: g0_def)
  have d: "fst (short_callable ''abcd'' (snd (short_callable ''abcd'' (hidden g0)))) =
      fst (short_callable ''abcd'' (hidden g0))"
    by (simp add: short_callable_def)
  from get_grammar_deterministic [of g0 short_callable "''abcd''"] h d
  have "fst (get_grammar short_callable ''abcd'' (snd (get_grammar short_callable ''abcd'' g0))) =
      fst (get_grammar short_callable ''abcd'' g0)"
    by blast
  then show ?thesis using h d by (simp only: short_grammar fst_conv simp_thms)
qed

text \<open>
  The occurrences that \<^const>\<open>replace\<close> finds. A string splits at the occurrences of
  \<open>old\<close> met from the left without overlap: pieces \<open>u\<close>, each followed by
  \<open>old\<close> and such that no occurrence starts inside the piece, and a last part \<open>w\<close>
  without occurrence. Every string has such a splitting.
\<close>

lemma replace_prefix:
  "old \<noteq> [] \<Longrightarrow> replace (old @ rest) old new = new @ replace rest old new"
  by (cases old) simp_all

lemma prefix_before_occurrence:
  assumes "prefix old (u @ old @ rest)"
  shows "prefix old (u @ butlast old) \<or> u = []"
proof (cases "u = []")
  case True
  then show ?thesis by simp
next
  case False
  then have "length old \<le> length (u @ butlast old)" by (cases u) simp_all
  moreover have "prefix (u @ butlast old) (u @ old @ rest)"
    by (metis append_butlast_last_id butlast.simps(1) prefix_def append.assoc same_prefix_prefix
        prefixI append_Nil2 Nil_prefix)
  ultimately show ?thesis
    using assms by (metis prefix_length_prefix)
qed

lemma replace_first_occurrence:
  "old \<noteq> [] \<Longrightarrow> \<not> sublist old (u @ butlast old) \<Longrightarrow>
     replace (u @ old @ rest) old new = u @ new @ replace rest old new"
proof (induction u)
  case Nil
  then show ?case by (simp add: replace_prefix)
next
  case (Cons c u)
  from Cons.prems(2) have np: "\<not> prefix old ((c # u) @ butlast old)"
    and ns: "\<not> sublist old (u @ butlast old)"
    by (auto simp: sublist_Cons_right)
  from np prefix_before_occurrence [of old "c # u" rest]
  have "\<not> prefix old (c # u @ old @ rest)" by auto
  with Cons.prems(1) Cons.IH [OF Cons.prems(1) ns] show ?case by simp
qed

lemma replace_no_occurrence: "\<not> sublist old s \<Longrightarrow> replace s old new = s"
proof (induction s)
  case Nil
  then show ?case by auto
next
  case (Cons c s)
  then have "old \<noteq> []" "\<not> prefix old (c # s)" "\<not> sublist old s"
    by (auto simp: sublist_Cons_right)
  with Cons.IH show ?case by simp
qed

lemma replace_all_occurrences:
  assumes "old \<noteq> []" and "\<forall>u \<in> set us. \<not> sublist old (u @ butlast old)" and "\<not> sublist old w"
  shows "replace (concat (map (\<lambda>u. u @ old) us) @ w) old new =
           concat (map (\<lambda>u. u @ new) us) @ w"
  using assms(2)
proof (induction us)
  case Nil
  then show ?case using assms(3) by (simp add: replace_no_occurrence)
next
  case (Cons u us)
  then show ?case
    using replace_first_occurrence [OF assms(1), of u "concat (map (\<lambda>u. u @ old) us) @ w" new]
    by simp
qed

lemma first_occurrence_exists:
  "old \<noteq> [] \<Longrightarrow> sublist old s \<Longrightarrow>
     \<exists>u rest. s = u @ old @ rest \<and> \<not> sublist old (u @ butlast old)"
proof (induction s)
  case Nil
  then show ?case by simp
next
  case (Cons c s)
  show ?case
  proof (cases "prefix old (c # s)")
    case True
    then obtain rest where "c # s = [] @ old @ rest" by (auto simp: prefix_def)
    moreover have "length (butlast old) < length old"
      using Cons.prems(1) by simp
    then have "\<not> sublist old ([] @ butlast old)"
      by (auto dest: sublist_length_le)
    ultimately show ?thesis by blast
  next
    case False
    with Cons.prems have "sublist old s" by (simp add: sublist_Cons_right)
    from Cons.IH [OF Cons.prems(1) this] obtain u rest
      where s: "s = u @ old @ rest" and n: "\<not> sublist old (u @ butlast old)" by blast
    have "prefix (butlast old) old"
      by (metis append_butlast_last_id butlast.simps(1) prefixI prefix_order.refl)
    then have "prefix (butlast old) (old @ rest)"
      using prefix_prefix by blast
    then have "prefix ((c # u) @ butlast old) (c # s)"
      unfolding s by simp
    with False have "\<not> prefix old ((c # u) @ butlast old)"
      using prefix_order.trans by blast
    with n have "\<not> sublist old ((c # u) @ butlast old)"
      by (simp add: sublist_Cons_right)
    with s show ?thesis by (metis append_Cons)
  qed
qed

lemma occurrences_decomposition:
  assumes "old \<noteq> []"
  shows "\<exists>us w. s = concat (map (\<lambda>u. u @ old) us) @ w \<and>
           (\<forall>u \<in> set us. \<not> sublist old (u @ butlast old)) \<and> \<not> sublist old w"
proof (induction s rule: length_induct)
  case (1 s)
  show ?case
  proof (cases "sublist old s")
    case False
    then have "s = concat (map (\<lambda>u. u @ old) []) @ s \<and>
        (\<forall>u \<in> set []. \<not> sublist old (u @ butlast old)) \<and> \<not> sublist old s" by simp
    then show ?thesis by blast
  next
    case True
    from first_occurrence_exists [OF assms True] obtain u rest
      where s: "s = u @ old @ rest" and n: "\<not> sublist old (u @ butlast old)" by blast
    from s assms have "length rest < length s" by simp
    with 1 obtain us w where r: "rest = concat (map (\<lambda>u. u @ old) us) @ w"
      and a: "\<forall>u \<in> set us. \<not> sublist old (u @ butlast old)" and w: "\<not> sublist old w"
      by blast
    have "s = concat (map (\<lambda>u. u @ old) (u # us)) @ w"
      using s r by simp
    moreover have "\<forall>v \<in> set (u # us). \<not> sublist old (v @ butlast old)"
      using n a by simp
    ultimately show ?thesis using w by blast
  qed
qed

text \<open>
  C2 (substitution in one alternative). The claim says that only the first occurrence of
  the value is replaced. The code calls \<^verbatim>\<open>repl.replace(value, alt_key)\<close> with no
  count, and the notebook describes the step as replacing the occurrences of the value:
  already on \<^verbatim>\<open>ab-ab\<close> both occurrences are replaced.
\<close>

theorem scan_first_occurrence_only_counterexample:
  "sublist ''ab'' ''ab-ab'' \<and>
   fst (scan_alternatives ''X'' ''ab'' [''ab-ab''] []) = [''<x>-<x>''] \<and>
   fst (scan_alternatives ''X'' ''ab'' [''ab-ab''] []) \<noteq>
     [spec_replace_first ''ab-ab'' ''ab'' (nonterminal_str ''X'')]"
  by code_simp

text \<open>
  C2 as amended. When a non-empty value occurs in an alternative, the scan replaces
  every occurrence met from the left without overlap by the nonterminal, which is the
  variable's name in lower case between angle brackets, and records one pending rule for
  the alternative.
\<close>

theorem scan_replaces_every_occurrence:
  assumes "value \<noteq> []" and "us \<noteq> []"
      and "\<forall>u \<in> set us. \<not> sublist value (u @ butlast value)" and "\<not> sublist value w"
  shows "scan_alternatives var value [concat (map (\<lambda>u. u @ value) us) @ w] new_rules =
           ([concat (map (\<lambda>u. u @ ''<'' @ lower var @ ''>'') us) @ w],
            new_rules @ [(var, ''<'' @ lower var @ ''>'', value)])"
proof -
  obtain u us' where us: "us = u # us'" using assms(2) by (cases us) auto
  have "sublist value (concat (map (\<lambda>u. u @ value) us) @ w)"
    unfolding us by (simp add: sublist_append)
  then show ?thesis
    using replace_all_occurrences [OF assms(1,3,4), of "nonterminal_str var"]
    by (simp add: nonterminal_str_def Let_def)
qed

theorem scan_replaces_every_occurrence_witness:
  "''ab'' \<noteq> [] \<and> ['''', ''-''] \<noteq> [] \<and>
   \<not> sublist ''ab'' ('''' @ butlast ''ab'') \<and> \<not> sublist ''ab'' (''-'' @ butlast ''ab'') \<and>
   \<not> sublist ''ab'' ''!'' \<and>
   scan_alternatives ''X'' ''ab'' [''ab-ab!''] [] = ([''<x>-<x>!''], [(''X'', ''<x>'', ''ab'')])"
proof -
  have h: "\<forall>u \<in> set ['''', ''-''].  \<not> sublist ''ab'' (u @ butlast ''ab'')"
    by (simp add: sublist_code)
  have w: "\<not> sublist ''ab'' ''!''" by (simp add: sublist_code)
  have l: "lower ''X'' = ''x''" by code_simp
  from scan_replaces_every_occurrence [of "''ab''" "['''', ''-'']" "''!''" "''X''" "[]"] h w l
  show ?thesis by simp
qed

lemma extract_loop_Promoted:
  "extract_pass grammar vals = Promoted grammar' vals' \<Longrightarrow>
     fst (extract_loop grammar vals) = fst (extract_loop grammar' vals')"
  by (subst extract_loop.simps) (simp split: prod.split)

lemma pass_reached_result:
  "pass_reached grammar0 values0 grammar vals \<Longrightarrow>
     fst (extract_loop grammar0 values0) = fst (extract_loop grammar vals)"
  by (induction rule: pass_reached.induct) (simp_all add: extract_loop_Promoted)

lemma promote_missing:
  "var \<in> fst ` set new_rules \<Longrightarrow> map_of vals var = None \<Longrightarrow>
     \<exists>var' grammar' vals'. promote new_rules grammar vals = (Some (KeyError var'), grammar', vals')"
proof (induction new_rules grammar vals rule: promote.induct)
  case (1 grammar vals)
  then show ?case by simp
next
  case (2 v alt_key val rest grammar vals)
  show ?case
  proof (cases "map_of vals v")
    case None
    then show ?thesis by (simp add: Let_def)
  next
    case (Some a)
    with "2.prems" have "var \<noteq> v" by auto
    with "2.prems" have "var \<in> fst ` set rest" by auto
    moreover have "map_of (AList.delete v vals) var = None"
      using "2.prems" by (simp add: delete_conv')
    ultimately show ?thesis
      using "2.IH" [OF refl Some] Some by (simp add: Let_def)
  qed
qed

lemma promote_duplicate:
  "\<not> distinct (map fst new_rules) \<Longrightarrow>
     \<exists>var grammar' vals'. promote new_rules grammar vals = (Some (KeyError var), grammar', vals')"
proof (induction new_rules grammar vals rule: promote.induct)
  case (1 grammar vals)
  then show ?case by simp
next
  case (2 v alt_key val rest grammar vals)
  show ?case
  proof (cases "map_of vals v")
    case None
    then show ?thesis by (simp add: Let_def)
  next
    case (Some a)
    show ?thesis
    proof (cases "v \<in> fst ` set rest")
      case True
      have "map_of (AList.delete v vals) v = None" by (simp add: delete_conv')
      from promote_missing [OF True this] Some show ?thesis by (simp add: Let_def)
    next
      case False
      with "2.prems" have "\<not> distinct (map fst rest)" by simp
      from "2.IH" [OF refl Some this] Some show ?thesis by (simp add: Let_def)
    qed
  qed
qed

lemma promote_KeyError_in_rules:
  "promote new_rules grammar vals = (Some (KeyError var), grammar', vals') \<Longrightarrow>
     var \<in> fst ` set new_rules"
proof (induction new_rules grammar vals rule: promote.induct)
  case (1 grammar vals)
  then show ?case by simp
next
  case (2 v alt_key val rest grammar vals)
  then show ?case
    by (cases "map_of vals v") (auto simp: Let_def)
qed

lemma promote_KeyError_twice:
  "promote new_rules grammar vals = (Some (KeyError var), grammar', vals') \<Longrightarrow>
   var \<in> fst ` set vals \<Longrightarrow> 2 \<le> count_list (map fst new_rules) var"
proof (induction new_rules grammar vals rule: promote.induct)
  case (1 grammar vals)
  then show ?case by simp
next
  case (2 v alt_key val rest grammar vals)
  show ?case
  proof (cases "map_of vals v")
    case None
    with "2.prems"(1) have "var = v" by (simp add: Let_def)
    with None "2.prems"(2) show ?thesis by (simp add: map_of_eq_None_iff)
  next
    case (Some a)
    with "2.prems"(1) have p: "promote rest (AList.update alt_key [val] grammar)
        (AList.delete v vals) = (Some (KeyError var), grammar', vals')"
      by (simp add: Let_def)
    show ?thesis
    proof (cases "var = v")
      case True
      from promote_KeyError_in_rules [OF p] have "var \<in> set (map fst rest)" by simp
      then have "count_list (map fst rest) var \<noteq> 0" by (simp only: count_list_0_iff not_not)
      with True show ?thesis by simp
    next
      case False
      with "2.prems"(2) have "var \<in> fst ` set (AList.delete v vals)"
        by (auto simp: AList.delete_eq image_iff)
      from "2.IH" [OF refl Some p this] False show ?thesis by simp
    qed
  qed
qed

lemma scan_alternatives_eq:
  "scan_alternatives var value alts new_rules =
     (map (subst_alt var value) alts,
      new_rules @ replicate (length (filter (sublist value) alts)) (var, nonterminal_str var, value))"
  by (induction alts arbitrary: new_rules)
     (simp_all add: subst_alt_def Let_def replicate_app_Cons_same)

lemma scan_rules_eq:
  "scan_rules var value grammar new_rules =
     (map (\<lambda>(key, alts). (key, map (subst_alt var value) alts)) grammar,
      new_rules @ replicate (matches value grammar) (var, nonterminal_str var, value))"
proof (induction grammar arbitrary: new_rules)
  case Nil
  then show ?case by (simp add: matches_def)
next
  case (Cons rule grammar)
  obtain key alts where r: "rule = (key, alts)" by (cases rule)
  show ?case
    by (simp add: r Cons scan_alternatives_eq matches_def replicate_add)
qed

lemma scan_values_vars:
  "scan_values vals grammar new_rules = (grammar', new_rules') \<Longrightarrow>
     fst ` set new_rules' \<subseteq> fst ` set new_rules \<union> fst ` set vals"
proof (induction vals grammar new_rules rule: scan_values.induct)
  case (1 grammar new_rules)
  then show ?case by simp
next
  case (2 var val rest grammar new_rules)
  from "2.prems" have "scan_values rest
      (map (\<lambda>(key, alts). (key, map (subst_alt var val) alts)) grammar)
      (new_rules @ replicate (matches val grammar) (var, nonterminal_str var, val)) =
      (grammar', new_rules')"
    by (simp add: scan_rules_eq)
  from "2.IH" [OF scan_rules_eq [symmetric] this] show ?case
    by (auto split: if_splits)
qed

lemma fst_get_grammar:
  "trace_function func inp g = (Inr vals, g1) \<Longrightarrow>
     fst (get_grammar func inp g) = fst (extract_loop [(START_SYMBOL, [inp])] vals)"
  by (cases "extract_loop [(START_SYMBOL, [inp])] vals") (simp add: get_grammar_def Let_def)

lemma dom_trace_values:
  "fst ` set (foldl (traceit_var inp) [] obs) = {var. qualifying inp var obs \<noteq> []}"
proof -
  have "var \<in> fst ` set (foldl (traceit_var inp) [] obs) \<longleftrightarrow> qualifying inp var obs \<noteq> []"
    for var
  proof -
    have "var \<in> fst ` set (foldl (traceit_var inp) [] obs) \<longleftrightarrow>
        map_of (foldl (traceit_var inp) [] obs) var \<noteq> None"
      by (simp add: map_of_eq_None_iff)
    also have "\<dots> \<longleftrightarrow> qualifying inp var obs \<noteq> []"
      by (simp add: map_of_foldl_traceit_var split: list.split)
    finally show ?thesis .
  qed
  then show ?thesis by blast
qed

lemma length_trace_values:
  "length (foldl (traceit_var inp) [] obs) = card {var. qualifying inp var obs \<noteq> []}"
proof -
  have d: "distinct (map fst (foldl (traceit_var inp) [] obs))"
    by (rule distinct_foldl_traceit_var) simp
  have "card (fst ` set (foldl (traceit_var inp) [] obs)) =
      length (map fst (foldl (traceit_var inp) [] obs))"
    using distinct_card [OF d] by simp
  then show ?thesis by (simp add: dom_trace_values)
qed

lemma extract_pass_Nil: "extract_pass grammar [] = Fixpoint grammar"
  by (simp add: extract_pass_def)

lemma extract_loop_passes_le: "snd (snd (extract_loop grammar vals)) \<le> length vals"
proof (induction grammar vals rule: extract_loop.induct)
  case (1 grammar vals)
  show ?case
  proof (cases "extract_pass grammar vals")
    case (Fixpoint grammar')
    then show ?thesis by (subst extract_loop.simps) simp
  next
    case (Promoted grammar' vals')
    obtain res vals'' n where l: "extract_loop grammar' vals' = (res, vals'', n)"
      by (cases "extract_loop grammar' vals'")
    from "1.IH" [OF Promoted] l have "n \<le> length vals'" by simp
    with extract_pass_Promoted_less [OF Promoted] have "Suc n \<le> length vals" by simp
    then show ?thesis
      using Promoted l by (subst extract_loop.simps) simp
  next
    case (Failed e vals')
    then have "vals \<noteq> []" using extract_pass_Nil [of grammar] by auto
    then show ?thesis
      using Failed by (subst extract_loop.simps) (simp add: Suc_le_eq)
  qed
qed

lemma promote_subset:
  "promote new_rules grammar vals = (None, grammar', vals') \<Longrightarrow> set vals' \<subseteq> set vals"
proof (induction new_rules grammar vals rule: promote.induct)
  case (1 grammar vals)
  then show ?case by simp
next
  case (2 v alt_key val rest grammar vals)
  show ?case
  proof (cases "map_of vals v")
    case None
    with "2.prems" show ?thesis by (simp add: Let_def)
  next
    case (Some a)
    with "2.prems" have "promote rest (AList.update alt_key [val] grammar)
        (AList.delete v vals) = (None, grammar', vals')"
      by (simp add: Let_def)
    from "2.IH" [OF refl Some this] show ?thesis
      by (auto simp: AList.delete_eq)
  qed
qed

lemma extract_pass_Promoted_subset:
  "extract_pass grammar vals = Promoted grammar' vals' \<Longrightarrow> set vals' \<subseteq> set vals"
  by (auto simp: extract_pass_def split: prod.splits if_splits option.splits
           dest: promote_subset)

text \<open>
  C6 (termination bound). The loop of \<^verbatim>\<open>get_grammar\<close> is a total function: its
  recursion is justified by the length of the record, which every pass that promotes
  makes shorter. With k the number of distinct names that have a qualifying observation
  among the frames shown to the hook during the call, which is the length of the record
  the tracer returns, at most k passes make a substitution; and a pass that promotes
  leaves a record that is strictly shorter and holds no entry that was not there before,
  so what is removed stays removed. This holds in every state the call may start in:
  entered with the hook installed, the local \<^verbatim>\<open>input\<close> of \<^verbatim>\<open>trace_function\<close> is one
  of the names observed.
\<close>

theorem get_grammar_pass_bound:
  assumes "snd (fst (func inp (hidden g))) = Returns v"
  shows "substitution_passes func inp g
           \<le> card {var. qualifying inp var (concat (observed func inp g)) \<noteq> []} \<and>
         (\<forall>grammar vals grammar' vals'.
            extract_pass grammar vals = Promoted grammar' vals' \<longrightarrow>
              length vals' < length vals \<and> set vals' \<subseteq> set vals)"
proof -
  let ?vals = "foldl (traceit_var inp) [] (concat (observed func inp g))"
  have "substitution_passes func inp g =
      snd (snd (extract_loop [(START_SYMBOL, [inp])] ?vals))"
    using assms by (simp add: substitution_passes_def trace_function_Returns [of func inp g v])
  also have "\<dots> \<le> length ?vals" by (rule extract_loop_passes_le)
  also have "\<dots> = card {var. qualifying inp var (concat (observed func inp g)) \<noteq> []}"
    by (rule length_trace_values)
  finally show ?thesis
    using extract_pass_Promoted_less extract_pass_Promoted_subset by blast
qed

lemma hooked_passes: "substitution_passes short_callable ''abcd'' hooked = 3"
proof -
  have r: "snd (fst (short_callable ''abcd'' (hidden hooked))) = Returns PyNone"
    by (simp add: short_callable_def)
  show ?thesis
    apply (simp only: substitution_passes_def
        trace_function_Returns [of short_callable "''abcd''" hooked PyNone, OF r])
    apply (simp add: observed_def hooked_def short_callable_def trace_function_locals_def)
    apply code_simp
    done
qed

lemma short_first_pass:
  "extract_pass [(START_SYMBOL, [''abcd''])] [(''text'', ''abcd''), (''head'', ''ab'')] =
     Promoted [(START_SYMBOL, [''<text>'']), (''<text>'', [''abcd''])] [(''head'', ''ab'')]"
  by code_simp

theorem get_grammar_pass_bound_witness:
  "snd (fst (short_callable ''abcd'' (hidden hooked))) = Returns PyNone \<and>
   substitution_passes short_callable ''abcd'' hooked = 3 \<and>
   3 \<le> card {var. qualifying ''abcd'' var (concat (observed short_callable ''abcd'' hooked)) \<noteq> []} \<and>
   extract_pass [(START_SYMBOL, [''abcd''])] [(''text'', ''abcd''), (''head'', ''ab'')] =
     Promoted [(START_SYMBOL, [''<text>'']), (''<text>'', [''abcd''])] [(''head'', ''ab'')] \<and>
   length [(''head'', ''ab'')] < length [(''text'', ''abcd''), (''head'', ''ab'')]"
proof -
  have r: "snd (fst (short_callable ''abcd'' (hidden hooked))) = Returns PyNone"
    by (simp add: short_callable_def)
  from get_grammar_pass_bound [of short_callable "''abcd''" hooked PyNone] r hooked_passes
    short_first_pass
  show ?thesis by simp
qed

text \<open>
  C9 (duplicate deletion). Take any pass that the loop of \<^verbatim>\<open>get_grammar\<close> reaches.
  If the scan of that pass records more than one pending rule for one variable, which is
  what happens when the variable's value is found in more than one alternative, then
  \<^verbatim>\<open>get_grammar\<close> does not return a grammar: it raises \<^verbatim>\<open>KeyError\<close>, for a variable
  that has at least two pending rules, at the second \<^verbatim>\<open>del values[var]\<close>.
\<close>

theorem get_grammar_duplicate_deletion:
  assumes "trace_function func inp g = (Inr values0, g1)"
      and "pass_reached [(START_SYMBOL, [inp])] values0 grammar vals"
      and "scan_values vals grammar [] = (grammar', new_rules)"
      and "\<not> distinct (map fst new_rules)"
  shows "\<exists>var. fst (get_grammar func inp g) = Inl (KeyError var) \<and>
           2 \<le> count_list (map fst new_rules) var"
proof -
  from promote_duplicate [OF assms(4)] obtain var grammar'' vals'
    where p: "promote new_rules grammar' vals = (Some (KeyError var), grammar'', vals')"
    by blast
  from assms(4) have ne: "new_rules \<noteq> []" by auto
  have "extract_pass grammar vals = Failed (KeyError var) vals'"
    using assms(3) p ne by (simp add: extract_pass_def)
  then have "fst (extract_loop grammar vals) = Inl (KeyError var)"
    by (subst extract_loop.simps) simp
  with pass_reached_result [OF assms(2)]
  have "fst (extract_loop [(START_SYMBOL, [inp])] values0) = Inl (KeyError var)" by simp
  then have r: "fst (get_grammar func inp g) = Inl (KeyError var)"
    using fst_get_grammar [OF assms(1)] by simp
  from scan_values_vars [OF assms(3)] promote_KeyError_in_rules [OF p]
  have "var \<in> fst ` set vals" by auto
  from promote_KeyError_twice [OF p this] r show ?thesis by blast
qed

lemma dup_callable_trace:
  "trace_function dup_callable ''abc-abd'' g0 =
     (Inr [(''p'', ''abc''), (''r'', ''abd''), (''q'', ''ab'')],
      \<lparr>the_values = [(''p'', ''abc''), (''r'', ''abd''), (''q'', ''ab'')],
       the_input = ''abc-abd'', trace_hook = NoHook, hidden = ()\<rparr>)"
proof -
  have r: "snd (fst (dup_callable ''abc-abd'' (hidden g0))) = Returns PyNone"
    by (simp add: dup_callable_def)
  show ?thesis
    by (simp only: trace_function_Returns [of dup_callable "''abc-abd''" g0 PyNone, OF r])
      (simp add: observed_def g0_def dup_callable_def sublist_code)
qed

lemma dup_callable_pass:
  "extract_pass [(START_SYMBOL, [''abc-abd''])] [(''p'', ''abc''), (''r'', ''abd''), (''q'', ''ab'')] =
     Promoted [(START_SYMBOL, [''<p>-<r>'']), (''<p>'', [''abc'']), (''<r>'', [''abd''])]
       [(''q'', ''ab'')]"
  by code_simp

lemma dup_callable_scan:
  "scan_values [(''q'', ''ab'')]
     [(START_SYMBOL, [''<p>-<r>'']), (''<p>'', [''abc'']), (''<r>'', [''abd''])] [] =
     ([(START_SYMBOL, [''<p>-<r>'']), (''<p>'', [''<q>c'']), (''<r>'', [''<q>d''])],
      [(''q'', ''<q>'', ''ab''), (''q'', ''<q>'', ''ab'')])"
  by code_simp

theorem get_grammar_duplicate_deletion_witness:
  "trace_function dup_callable ''abc-abd'' g0 =
     (Inr [(''p'', ''abc''), (''r'', ''abd''), (''q'', ''ab'')],
      \<lparr>the_values = [(''p'', ''abc''), (''r'', ''abd''), (''q'', ''ab'')],
       the_input = ''abc-abd'', trace_hook = NoHook, hidden = ()\<rparr>) \<and>
   pass_reached [(START_SYMBOL, [''abc-abd''])] [(''p'', ''abc''), (''r'', ''abd''), (''q'', ''ab'')]
     [(START_SYMBOL, [''<p>-<r>'']), (''<p>'', [''abc'']), (''<r>'', [''abd''])] [(''q'', ''ab'')] \<and>
   \<not> distinct (map fst [(''q'', ''<q>'', ''ab''), (''q'', ''<q>'', ''ab'')]) \<and>
   fst (get_grammar dup_callable ''abc-abd'' g0) = Inl (KeyError ''q'')"
proof -
  have r: "pass_reached [(START_SYMBOL, [''abc-abd''])]
      [(''p'', ''abc''), (''r'', ''abd''), (''q'', ''ab'')]
      [(START_SYMBOL, [''<p>-<r>'']), (''<p>'', [''abc'']), (''<r>'', [''abd''])] [(''q'', ''ab'')]"
    by (rule next_pass [OF first_pass dup_callable_pass])
  have d: "\<not> distinct (map fst [(''q'', ''<q>'', ''ab''), (''q'', ''<q>'', ''ab'')])"
    by simp
  from get_grammar_duplicate_deletion [OF dup_callable_trace r dup_callable_scan d]
  obtain var where v: "fst (get_grammar dup_callable ''abc-abd'' g0) = Inl (KeyError var)"
    and c: "2 \<le> count_list (map fst [(''q'', ''<q>'', ''ab''), (''q'', ''<q>'', ''ab'')]) var"
    by blast
  have "var = ''q''"
  proof (rule ccontr)
    assume "var \<noteq> ''q''"
    then have "count_list (map fst [(''q'', ''<q>'', ''ab''), (''q'', ''<q>'', ''ab'')]) var = 0"
      by simp
    with c show False by simp
  qed
  with v dup_callable_trace r d show ?thesis by simp
qed

subsection \<open>The round trip\<close>

lemma derives_refl [simp]: "derives G s s"
  by (simp add: derives_def)

lemma derives_trans: "derives G s t \<Longrightarrow> derives G t u \<Longrightarrow> derives G s u"
  by (simp add: derives_def)

lemma expands_derives: "expands G s t \<Longrightarrow> derives G s t"
  by (simp add: derives_def)

lemma expands_context: "expands G s t \<Longrightarrow> expands G (a @ s @ b) (a @ t @ b)"
proof (induction rule: expands.induct)
  case (expand key body u v)
  from expands.expand [OF expand, of "a @ u" "v @ b"] show ?case by simp
qed

lemma derives_context: "derives G s t \<Longrightarrow> derives G (a @ s @ b) (a @ t @ b)"
  unfolding derives_def
proof (induction rule: rtranclp_induct)
  case base
  then show ?case by simp
next
  case (step t t')
  from step.IH expands_context [OF step.hyps(2), of a b] show ?case by simp
qed

lemma derives_append:
  assumes "derives G a a'" and "derives G b b'"
  shows "derives G (a @ b) (a' @ b')"
proof -
  from derives_context [OF assms(1), of "[]" b] have "derives G (a @ b) (a' @ b)" by simp
  moreover from derives_context [OF assms(2), of a' "[]"] have "derives G (a' @ b) (a' @ b')"
    by simp
  ultimately show ?thesis by (rule derives_trans)
qed

lemma derives_Cons: "derives G s t \<Longrightarrow> derives G (c # s) (c # t)"
  using derives_append [of G "[c]" "[c]" s t] by simp

lemma derives_rule: "map_of G key = Some [body] \<Longrightarrow> derives G key body"
  using expands.expand [of G key body "[]" "[]"] by (simp add: expands_derives)

lemma replace_derives:
  assumes "map_of G new = Some [old]"
  shows "derives G (replace s old new) s"
  using assms
proof (induction s old new rule: replace.induct)
  case (1 old new)
  from derives_rule [OF "1.prems"] show ?case by auto
next
  case (2 c cs old new)
  note r = derives_rule [OF "2.prems"]
  show ?case
  proof (cases "old = []")
    case True
    from "2.IH"(1) [OF True "2.prems"] have "derives G (c # replace cs old new) (c # cs)"
      by (rule derives_Cons)
    from derives_append [OF r this] True show ?thesis by simp
  next
    case False
    show ?thesis
    proof (cases "prefix old (c # cs)")
      case True
      then have e: "old @ drop (length old) (c # cs) = c # cs"
        by (metis append_eq_conv_conj prefixE)
      from "2.IH"(2) [OF False True "2.prems"]
      have "derives G (replace (drop (length old) (c # cs)) old new) (drop (length old) (c # cs))" .
      from derives_append [OF r this] e False True show ?thesis by simp
    next
      case np: False
      from "2.IH"(3) [OF False np "2.prems"] have "derives G (c # replace cs old new) (c # cs)"
        by (rule derives_Cons)
      with False np show ?thesis by simp
    qed
  qed
qed

lemma subst_alt_derives:
  assumes "sublist value repl \<longrightarrow> map_of G (nonterminal_str var) = Some [value]"
  shows "derives G (subst_alt var value repl) repl"
  using assms by (simp add: subst_alt_def replace_derives)

lemma derives_mono:
  assumes "\<And>key body. map_of G key = Some [body] \<Longrightarrow> derives G' key body"
      and "derives G s t"
  shows "derives G' s t"
  using assms(2) unfolding derives_def
proof (induction rule: rtranclp_induct)
  case base
  then show ?case by simp
next
  case (step t t')
  from step.hyps(2) have "derives G' t t'"
  proof (cases rule: expands.cases)
    case (expand key body u v)
    from derives_context [OF assms(1) [OF expand(3)], of u v] expand show ?thesis by simp
  qed
  with step.IH show ?case by (simp add: derives_def)
qed

lemma with_rules_Nil [simp]: "with_rules G [] = G"
  by (simp add: with_rules_def)

lemma with_rules_snoc:
  "with_rules G (nr @ [(var, alt_key, value)]) = AList.update alt_key [value] (with_rules G nr)"
  by (simp add: with_rules_def)

lemma with_rules_append:
  "with_rules G (nr @ nr') = with_rules (with_rules G nr) nr'"
  by (simp add: with_rules_def)

lemma map_of_with_rules:
  "map_of (with_rules G nr) key =
     (case map_of (rev (map (\<lambda>(var, alt_key, value). (alt_key, [value])) nr)) key of
        None \<Rightarrow> map_of G key
      | Some alts \<Rightarrow> Some alts)"
proof (induction nr rule: rev_induct)
  case Nil
  then show ?case by simp
next
  case (snoc r nr)
  obtain var alt_key "value" where r: "r = (var, alt_key, value)" by (cases r)
  show ?case
    by (simp add: r with_rules_snoc update_conv' snoc)
qed

lemma promote_grammar:
  "promote nr G vals = (None, G', vals') \<Longrightarrow>
     G' = with_rules G nr \<and> vals' = filter (\<lambda>p. fst p \<notin> fst ` set nr) vals"
proof (induction nr G vals rule: promote.induct)
  case (1 grammar vals)
  then show ?case by simp
next
  case (2 v alt_key val rest grammar vals)
  show ?case
  proof (cases "map_of vals v")
    case None
    with "2.prems" show ?thesis by (simp add: Let_def)
  next
    case (Some a)
    with "2.prems" have "promote rest (AList.update alt_key [val] grammar)
        (AList.delete v vals) = (None, G', vals')"
      by (simp add: Let_def)
    from "2.IH" [OF refl Some this]
    have g: "G' = with_rules (AList.update alt_key [val] grammar) rest"
      and v: "vals' = filter (\<lambda>p. fst p \<notin> fst ` set rest) (AList.delete v vals)"
      by simp_all
    have "G' = with_rules grammar ((v, alt_key, val) # rest)"
      using g by (simp add: with_rules_def)
    moreover have "vals' = filter (\<lambda>p. fst p \<notin> fst ` set ((v, alt_key, val) # rest)) vals"
      unfolding v by (auto simp: AList.delete_eq intro: filter_cong)
    ultimately show ?thesis by simp
  qed
qed

lemma map_of_pending_None:
  "map_of (rev (map (\<lambda>(var, alt_key, value). (alt_key, [value])) nr)) key = None \<longleftrightarrow>
     key \<notin> alt_keys nr"
  by (force simp: map_of_eq_None_iff alt_keys_def image_iff)

lemma map_of_with_rules_pending:
  "key \<notin> alt_keys nr \<Longrightarrow> map_of (with_rules G nr) key = map_of G key"
proof -
  assume "key \<notin> alt_keys nr"
  then have "map_of (rev (map (\<lambda>(var, alt_key, value). (alt_key, [value])) nr)) key = None"
    by (simp add: map_of_pending_None)
  then show ?thesis by (simp add: map_of_with_rules)
qed

lemma map_of_with_rules_base:
  "key \<in> alt_keys nr \<Longrightarrow> map_of (with_rules G nr) key = map_of (with_rules G' nr) key"
proof -
  assume "key \<in> alt_keys nr"
  then have "map_of (rev (map (\<lambda>(var, alt_key, value). (alt_key, [value])) nr)) key \<noteq> None"
    by (simp add: map_of_pending_None)
  then show ?thesis by (auto simp: map_of_with_rules)
qed

lemma map_of_with_rules_replicate:
  "map_of (with_rules G (nr @ replicate n (var, k, v))) key =
     (if 0 < n \<and> key = k then Some [v] else map_of (with_rules G nr) key)"
proof (induction n)
  case 0
  then show ?case by simp
next
  case (Suc n)
  have "nr @ replicate (Suc n) (var, k, v) = (nr @ replicate n (var, k, v)) @ [(var, k, v)]"
    by (simp add: replicate_append_same)
  then show ?case
    using Suc by (simp only: with_rules_snoc update_conv') auto
qed

lemma map_of_scanned:
  "map_of (map (\<lambda>(key, alts). (key, map (subst_alt var value) alts)) G) key =
     map_option (map (subst_alt var value)) (map_of G key)"
  by (induction G) auto

lemma matches_pos:
  "map_of G key = Some alts \<Longrightarrow> repl \<in> set alts \<Longrightarrow> sublist value repl \<Longrightarrow>
     0 < matches value G"
proof -
  assume m: "map_of G key = Some alts" and r: "repl \<in> set alts" and s: "sublist value repl"
  from m have "(key, alts) \<in> set G" by (rule map_of_SomeD)
  with r have "repl \<in> set (concat (map snd G))" by force
  with s have "repl \<in> set (filter (sublist value) (concat (map snd G)))" by simp
  then show ?thesis
    unfolding matches_def by (metis length_pos_if_in_set)
qed

lemma scan_rules_rule:
  assumes scan: "scan_rules var value G nr = (G', nr')"
      and fresh: "nonterminal_str var \<notin> fst ` set G"
      and disj: "alt_keys nr \<inter> fst ` set G = {}"
      and rule: "map_of G key = Some [body]"
  shows "\<exists>body'. map_of G' key = Some [body'] \<and> map_of (with_rules G' nr') key = Some [body'] \<and>
           derives (with_rules G' nr') body' body"
proof -
  let ?nt = "nonterminal_str var"
  let ?n = "matches value G"
  from scan have G': "G' = map (\<lambda>(key, alts). (key, map (subst_alt var value) alts)) G"
    and nr': "nr' = nr @ replicate ?n (var, ?nt, value)"
    by (simp_all add: scan_rules_eq)
  from rule have k: "key \<in> fst ` set G"
    by (metis map_of_eq_None_iff option.distinct(1))
  from k fresh have ne: "key \<noteq> ?nt" by blast
  from k disj have np: "key \<notin> alt_keys nr" by blast
  have g: "map_of G' key = Some [subst_alt var value body]"
    using rule by (simp add: G' map_of_scanned)
  have h: "map_of (with_rules G' nr') key = Some [subst_alt var value body]"
    using ne np g by (simp add: nr' map_of_with_rules_replicate map_of_with_rules_pending)
  have "map_of (with_rules G' nr') ?nt = Some [value]" if "sublist value body"
  proof -
    from matches_pos [OF rule _ that] have "0 < ?n" by simp
    then show ?thesis by (simp add: nr' map_of_with_rules_replicate)
  qed
  then have "derives (with_rules G' nr') (subst_alt var value body) body"
    by (intro subst_alt_derives) simp
  with g h show ?thesis by blast
qed

lemma scan_rules_mono:
  assumes scan: "scan_rules var value G nr = (G', nr')"
      and fresh: "nonterminal_str var \<notin> fst ` set G"
      and freshp: "nonterminal_str var \<notin> alt_keys nr"
      and disj: "alt_keys nr \<inter> fst ` set G = {}"
      and d: "derives (with_rules G nr) s t"
  shows "derives (with_rules G' nr') s t"
proof (rule derives_mono [OF _ d])
  fix key body
  assume m: "map_of (with_rules G nr) key = Some [body]"
  let ?nt = "nonterminal_str var"
  from scan have nr': "nr' = nr @ replicate (matches value G) (var, ?nt, value)"
    by (simp add: scan_rules_eq)
  show "derives (with_rules G' nr') key body"
  proof (cases "key \<in> alt_keys nr")
    case True
    with freshp have "key \<noteq> ?nt" by auto
    then have "map_of (with_rules G' nr') key = map_of (with_rules G' nr) key"
      by (simp add: nr' map_of_with_rules_replicate)
    also have "\<dots> = Some [body]"
      using map_of_with_rules_base [OF True, of G G'] m by simp
    finally show ?thesis by (rule derives_rule)
  next
    case False
    with m have "map_of G key = Some [body]" by (simp add: map_of_with_rules_pending)
    from scan_rules_rule [OF scan fresh disj this] obtain body'
      where "map_of (with_rules G' nr') key = Some [body']"
        and "derives (with_rules G' nr') body' body" by blast
    then show ?thesis using derives_rule derives_trans by blast
  qed
qed

lemma scan_ok_Nil: "scan_ok G nr G nr []"
  unfolding scan_ok_def
proof (intro conjI allI impI ballI)
  fix key body
  assume "map_of G key = Some [body]"
  then have "map_of G key = Some [body] \<and> derives (with_rules G nr) body body" by simp
  then show "\<exists>body'. map_of G key = Some [body'] \<and> derives (with_rules G nr) body' body" ..
qed simp_all

lemma scan_ok_derives:
  "scan_ok G nr G' nr' vs \<Longrightarrow> derives (with_rules G nr) s t \<Longrightarrow>
     derives (with_rules G' nr') s t"
  unfolding scan_ok_def by blast

lemma scan_ok_rule:
  "scan_ok G nr G' nr' vs \<Longrightarrow> map_of G key = Some [body] \<Longrightarrow>
     \<exists>body'. map_of G' key = Some [body'] \<and> derives (with_rules G' nr') body' body"
  unfolding scan_ok_def by blast

lemma scan_ok_keys: "scan_ok G nr G' nr' vs \<Longrightarrow> fst ` set G' = fst ` set G"
  unfolding scan_ok_def by blast

lemma scan_ok_new_rules:
  "scan_ok G nr G' nr' vs \<Longrightarrow> r \<in> set nr' \<Longrightarrow>
     r \<in> set nr \<or> (fst (snd r) = nonterminal_str (fst r) \<and> fst r \<in> fst ` set vs)"
  unfolding scan_ok_def by blast

lemma scan_ok_single:
  "scan_ok G nr G' nr' vs \<Longrightarrow> single_alternatives G \<Longrightarrow> single_alternatives G'"
  unfolding scan_ok_def by blast

lemma scan_ok_trans:
  assumes "scan_ok G nr G1 nr1 [p]" and "scan_ok G1 nr1 G' nr' vs"
  shows "scan_ok G nr G' nr' (p # vs)"
  unfolding scan_ok_def
proof (intro conjI allI impI ballI)
  fix s t
  assume "derives (with_rules G nr) s t"
  then have "derives (with_rules G1 nr1) s t" by (rule scan_ok_derives [OF assms(1)])
  then show "derives (with_rules G' nr') s t" by (rule scan_ok_derives [OF assms(2)])
next
  fix key body
  assume "map_of G key = Some [body]"
  from scan_ok_rule [OF assms(1) this] obtain body1 where b1: "map_of G1 key = Some [body1]"
    and d1: "derives (with_rules G1 nr1) body1 body"
    by blast
  from scan_ok_rule [OF assms(2) b1] obtain body' where b': "map_of G' key = Some [body']"
    and d': "derives (with_rules G' nr') body' body1"
    by blast
  from d1 have "derives (with_rules G' nr') body1 body"
    by (rule scan_ok_derives [OF assms(2)])
  with d' have "derives (with_rules G' nr') body' body" by (rule derives_trans)
  with b' show "\<exists>body'. map_of G' key = Some [body'] \<and> derives (with_rules G' nr') body' body"
    by blast
next
  from scan_ok_keys [OF assms(1)] scan_ok_keys [OF assms(2)]
  show "fst ` set G' = fst ` set G" by simp
next
  fix r
  assume "r \<in> set nr'"
  from scan_ok_new_rules [OF assms(2) this]
  show "r \<in> set nr \<or>
      (fst (snd r) = nonterminal_str (fst r) \<and> fst r \<in> fst ` set (p # vs))"
  proof
    assume "r \<in> set nr1"
    from scan_ok_new_rules [OF assms(1) this] show ?thesis by auto
  next
    assume "fst (snd r) = nonterminal_str (fst r) \<and> fst r \<in> fst ` set vs"
    then show ?thesis by auto
  qed
next
  assume "single_alternatives G"
  then have "single_alternatives G1" by (rule scan_ok_single [OF assms(1)])
  then show "single_alternatives G'" by (rule scan_ok_single [OF assms(2)])
qed

lemma keys_scanned:
  "map fst (map (\<lambda>(key, alts). (key, map (subst_alt var value) alts)) G) = map fst G"
  by (induction G) auto

lemma single_alternatives_scanned:
  assumes "single_alternatives G"
      and "G' = map (\<lambda>(key, alts). (key, map (subst_alt var value) alts)) G"
  shows "single_alternatives G'"
  unfolding single_alternatives_def
proof (intro allI impI)
  fix key alts
  assume "map_of G' key = Some alts"
  then obtain alts0 where "map_of G key = Some alts0" and "alts = map (subst_alt var value) alts0"
    unfolding assms(2) map_of_scanned by auto
  with assms(1) show "length alts = 1" by (simp add: single_alternatives_def)
qed

lemma scan_rules_ok:
  assumes scan: "scan_rules var value G nr = (G', nr')"
      and fresh: "nonterminal_str var \<notin> fst ` set G"
      and freshp: "nonterminal_str var \<notin> alt_keys nr"
      and disj: "alt_keys nr \<inter> fst ` set G = {}"
  shows "scan_ok G nr G' nr' [(var, value)]"
  unfolding scan_ok_def
proof (intro conjI allI impI ballI)
  fix s t
  assume "derives (with_rules G nr) s t"
  then show "derives (with_rules G' nr') s t"
    by (rule scan_rules_mono [OF scan fresh freshp disj])
next
  fix key body
  assume "map_of G key = Some [body]"
  from scan_rules_rule [OF scan fresh disj this]
  show "\<exists>body'. map_of G' key = Some [body'] \<and> derives (with_rules G' nr') body' body"
    by blast
next
  from scan have "G' = map (\<lambda>(key, alts). (key, map (subst_alt var value) alts)) G"
    by (simp add: scan_rules_eq)
  then have "map fst G' = map fst G"
    by (simp only: keys_scanned)
  then show "fst ` set G' = fst ` set G"
    by (metis set_map)
next
  fix r
  assume "r \<in> set nr'"
  moreover from scan
  have "nr' = nr @ replicate (matches value G) (var, nonterminal_str var, value)"
    by (simp add: scan_rules_eq)
  then have "set nr' \<subseteq> set nr \<union> {(var, nonterminal_str var, value)}"
    by auto
  ultimately have "r \<in> set nr \<or> r = (var, nonterminal_str var, value)" by blast
  then show "r \<in> set nr \<or>
      (fst (snd r) = nonterminal_str (fst r) \<and> fst r \<in> fst ` set [(var, value)])"
    by auto
next
  assume "single_alternatives G"
  moreover from scan have "G' = map (\<lambda>(key, alts). (key, map (subst_alt var value) alts)) G"
    by (simp add: scan_rules_eq)
  ultimately show "single_alternatives G'"
    by (rule single_alternatives_scanned)
qed

lemma scan_values_ok:
  "scan_values vs G nr = (G', nr') \<Longrightarrow>
   distinct (map (\<lambda>p. nonterminal_str (fst p)) vs) \<Longrightarrow>
   \<forall>p \<in> set vs. nonterminal_str (fst p) \<notin> fst ` set G \<union> alt_keys nr \<Longrightarrow>
   alt_keys nr \<inter> fst ` set G = {} \<Longrightarrow>
     scan_ok G nr G' nr' vs"
proof (induction vs arbitrary: G nr)
  case Nil
  then show ?case by (simp add: scan_ok_Nil)
next
  case (Cons p rest grammar new_rules)
  obtain var val where p: "p = (var, val)" by (cases p)
  note prems = Cons.prems [unfolded p]
  obtain G1 nr1 where s1: "scan_rules var val grammar new_rules = (G1, nr1)"
    by (cases "scan_rules var val grammar new_rules")
  with prems(1) have s2: "scan_values rest G1 nr1 = (G', nr')" by simp
  from prems(3) have fresh: "nonterminal_str var \<notin> fst ` set grammar"
    and freshp: "nonterminal_str var \<notin> alt_keys new_rules" by simp_all
  have ok1: "scan_ok grammar new_rules G1 nr1 [(var, val)]"
    by (rule scan_rules_ok [OF s1 fresh freshp prems(4)])
  have keys1: "fst ` set G1 = fst ` set grammar"
    using ok1 by (rule scan_ok_keys)
  have pend1: "alt_keys nr1 \<subseteq> insert (nonterminal_str var) (alt_keys new_rules)"
    using s1 by (auto simp: scan_rules_eq alt_keys_def)
  have d: "distinct (map (\<lambda>p. nonterminal_str (fst p)) rest)"
    using prems(2) by simp
  have f: "\<forall>p \<in> set rest. nonterminal_str (fst p) \<notin> fst ` set G1 \<union> alt_keys nr1"
  proof
    fix p
    assume p: "p \<in> set rest"
    with prems(2) have "nonterminal_str (fst p) \<noteq> nonterminal_str var" by force
    moreover from p prems(3)
    have "nonterminal_str (fst p) \<notin> fst ` set grammar \<union> alt_keys new_rules" by simp
    ultimately show "nonterminal_str (fst p) \<notin> fst ` set G1 \<union> alt_keys nr1"
      using keys1 pend1 by auto
  qed
  have j: "alt_keys nr1 \<inter> fst ` set G1 = {}"
  proof (rule Int_emptyI)
    fix x
    assume x: "x \<in> alt_keys nr1" and g: "x \<in> fst ` set G1"
    from x pend1 have "x = nonterminal_str var \<or> x \<in> alt_keys new_rules" by blast
    moreover from g have "x \<in> fst ` set grammar" by (simp only: keys1)
    ultimately show False using fresh prems(4) by blast
  qed
  from Cons.IH [OF s2 d f j] have "scan_ok G1 nr1 G' nr' rest" .
  with ok1 show ?case unfolding p by (rule scan_ok_trans)
qed

lemma extract_inv_scan:
  assumes "extract_inv inp G vals" and "scan_values vals G [] = (G', nr')"
  shows "scan_ok G [] G' nr' vals"
proof (rule scan_values_ok [OF assms(2)])
  from assms(1) show "distinct (map (\<lambda>p. nonterminal_str (fst p)) vals)"
    by (simp add: extract_inv_def)
  from assms(1) show "\<forall>p \<in> set vals. nonterminal_str (fst p) \<notin> fst ` set G \<union> alt_keys []"
    by (simp add: extract_inv_def alt_keys_def)
  show "alt_keys [] \<inter> fst ` set G = {}" by (simp add: alt_keys_def)
qed

lemma scan_start:
  assumes inv: "extract_inv inp G vals" and ok: "scan_ok G [] G' nr' vals"
  shows "\<exists>alt. map_of G' START_SYMBOL = Some [alt] \<and> derives (with_rules G' nr') alt inp"
proof -
  from inv obtain alt where a: "map_of G START_SYMBOL = Some [alt]" and d: "derives G alt inp"
    unfolding extract_inv_def by blast
  from scan_ok_rule [OF ok a] obtain alt' where a': "map_of G' START_SYMBOL = Some [alt']"
    and d': "derives (with_rules G' nr') alt' alt" by blast
  from d have "derives (with_rules G []) alt inp" by simp
  then have "derives (with_rules G' nr') alt inp" by (rule scan_ok_derives [OF ok])
  with d' have "derives (with_rules G' nr') alt' inp" by (rule derives_trans)
  with a' show ?thesis by blast
qed

lemma extract_pass_Fixpoint_inv:
  assumes inv: "extract_inv inp G vals" and pass: "extract_pass G vals = Fixpoint G'"
  shows "single_alternatives G' \<and>
         (\<exists>alt. map_of G' START_SYMBOL = Some [alt] \<and> derives G' alt inp)"
proof -
  obtain G1 nr1 where s: "scan_values vals G [] = (G1, nr1)"
    by (cases "scan_values vals G []")
  with pass have "G1 = G'" and "nr1 = []"
    by (auto simp: extract_pass_def split: if_splits prod.splits option.splits)
  with s have s': "scan_values vals G [] = (G', [])" by simp
  note ok = extract_inv_scan [OF inv s']
  from inv have "single_alternatives G" by (simp add: extract_inv_def)
  then have "single_alternatives G'" by (rule scan_ok_single [OF ok])
  moreover from scan_start [OF inv ok]
  have "\<exists>alt. map_of G' START_SYMBOL = Some [alt] \<and> derives G' alt inp" by simp
  ultimately show ?thesis ..
qed

lemma keys_with_rules: "fst ` set (with_rules G nr) = fst ` set G \<union> alt_keys nr"
proof (induction nr rule: rev_induct)
  case Nil
  then show ?case by (simp add: alt_keys_def)
next
  case (snoc r nr)
  obtain var alt_key val where r: "r = (var, alt_key, val)" by (cases r)
  show ?case
    unfolding r with_rules_snoc dom_update snoc by (auto simp: alt_keys_def)
qed

lemma single_alternatives_with_rules:
  assumes "single_alternatives G"
  shows "single_alternatives (with_rules G nr)"
proof (induction nr rule: rev_induct)
  case Nil
  then show ?case using assms by simp
next
  case (snoc r nr)
  obtain var alt_key val where r: "r = (var, alt_key, val)" by (cases r)
  from snoc show ?case
    unfolding r with_rules_snoc single_alternatives_def by (simp add: update_conv')
qed

lemma distinct_map_inj:
  "distinct (map f xs) \<Longrightarrow> x \<in> set xs \<Longrightarrow> y \<in> set xs \<Longrightarrow> f x = f y \<Longrightarrow> x = y"
  by (meson distinct_map inj_onD)

lemma extract_pass_Promoted_inv:
  assumes inv: "extract_inv inp G vals" and pass: "extract_pass G vals = Promoted G2 vals2"
  shows "extract_inv inp G2 vals2"
proof -
  obtain G' nr' where s: "scan_values vals G [] = (G', nr')"
    by (cases "scan_values vals G []")
  with pass have p: "promote nr' G' vals = (None, G2, vals2)"
    by (auto simp: extract_pass_def split: if_splits prod.splits option.splits)
  from promote_grammar [OF p] have G2: "G2 = with_rules G' nr'"
    and vals2: "vals2 = filter (\<lambda>p. fst p \<notin> fst ` set nr') vals" by simp_all
  note ok = extract_inv_scan [OF inv s]
  from inv have single: "single_alternatives G"
    and dist: "distinct (map (\<lambda>p. nonterminal_str (fst p)) vals)"
    and fresh: "\<forall>p \<in> set vals. nonterminal_str (fst p) \<notin> fst ` set G"
    by (simp_all add: extract_inv_def)
  have keys: "fst ` set G' = fst ` set G" using ok by (rule scan_ok_keys)
  have new: "fst (snd r) = nonterminal_str (fst r) \<and> fst r \<in> fst ` set vals"
    if "r \<in> set nr'" for r
    using scan_ok_new_rules [OF ok that] by simp
  have pend: "k \<notin> fst ` set G" if "k \<in> alt_keys nr'" for k
  proof -
    from that obtain r where r: "r \<in> set nr'" and k: "k = fst (snd r)"
      by (auto simp: alt_keys_def)
    from new [OF r] obtain q where "q \<in> set vals" and "fst r = fst q" by auto
    with new [OF r] k fresh show ?thesis by auto
  qed
  have 1: "single_alternatives G2"
    unfolding G2 using scan_ok_single [OF ok single] by (rule single_alternatives_with_rules)
  have 2: "\<exists>alt. map_of G2 START_SYMBOL = Some [alt] \<and> derives G2 alt inp"
  proof -
    from scan_start [OF inv ok] obtain alt where a: "map_of G' START_SYMBOL = Some [alt]"
      and d: "derives G2 alt inp" unfolding G2 by blast
    from a have "START_SYMBOL \<in> fst ` set G'"
      by (metis map_of_eq_None_iff option.distinct(1))
    with keys pend have "START_SYMBOL \<notin> alt_keys nr'" by auto
    then have "map_of G2 START_SYMBOL = map_of G' START_SYMBOL"
      unfolding G2 by (rule map_of_with_rules_pending)
    with a d show ?thesis by simp
  qed
  have 3: "distinct (map (\<lambda>p. nonterminal_str (fst p)) vals2)"
    unfolding vals2 using dist by (rule distinct_map_filter)
  have 4: "\<forall>p \<in> set vals2. nonterminal_str (fst p) \<notin> fst ` set G2"
  proof
    fix p
    assume "p \<in> set vals2"
    then have pv: "p \<in> set vals" and pn: "fst p \<notin> fst ` set nr'"
      by (simp_all add: vals2)
    from pv fresh keys have a: "nonterminal_str (fst p) \<notin> fst ` set G'" by simp
    have b: "nonterminal_str (fst p) \<notin> alt_keys nr'"
    proof
      assume "nonterminal_str (fst p) \<in> alt_keys nr'"
      then obtain r where r: "r \<in> set nr'" and k: "nonterminal_str (fst p) = fst (snd r)"
        by (auto simp: alt_keys_def)
      from new [OF r] obtain q where q: "q \<in> set vals" and fq: "fst r = fst q" by auto
      from k new [OF r] fq have "nonterminal_str (fst p) = nonterminal_str (fst q)" by simp
      from distinct_map_inj [OF dist pv q this] have "p = q" .
      with fq r have "fst p \<in> fst ` set nr'" by force
      with pn show False ..
    qed
    from a b show "nonterminal_str (fst p) \<notin> fst ` set G2"
      unfolding G2 keys_with_rules by simp
  qed
  from 1 2 3 4 show ?thesis unfolding extract_inv_def by blast
qed

lemma extract_loop_inv:
  "extract_inv inp G vals \<Longrightarrow> fst (extract_loop G vals) = Inr Gf \<Longrightarrow>
     single_alternatives Gf \<and>
     (\<exists>alt. map_of Gf START_SYMBOL = Some [alt] \<and> derives Gf alt inp)"
proof (induction G vals rule: extract_loop.induct)
  case (1 grammar vals)
  show ?case
  proof (cases "extract_pass grammar vals")
    case (Fixpoint G')
    with "1.prems"(2) have "Gf = G'" by (subst (asm) extract_loop.simps) simp
    with extract_pass_Fixpoint_inv [OF "1.prems"(1) Fixpoint] show ?thesis by simp
  next
    case (Promoted G2 vals2)
    from "1.prems"(2) extract_loop_Promoted [OF Promoted]
    have "fst (extract_loop G2 vals2) = Inr Gf" by simp
    from "1.IH" [OF Promoted extract_pass_Promoted_inv [OF "1.prems"(1) Promoted] this]
    show ?thesis .
  next
    case (Failed e vals')
    with "1.prems"(2) show ?thesis by (subst (asm) extract_loop.simps) simp
  qed
qed

lemma extract_inv_initial:
  assumes "distinct (map (\<lambda>p. nonterminal_str (fst p)) vals)"
      and "START_SYMBOL \<notin> (\<lambda>p. nonterminal_str (fst p)) ` set vals"
  shows "extract_inv inp [(START_SYMBOL, [inp])] vals"
proof -
  have "nonterminal_str (fst p) \<noteq> START_SYMBOL" if "p \<in> set vals" for p
    using assms(2) that by force
  then show ?thesis
    using assms(1) by (auto simp: extract_inv_def single_alternatives_def)
qed

text \<open>
  Full expansions. The keys of a grammar that the extractor builds from bracket-free
  names are a name between \<^verbatim>\<open><\<close> and \<^verbatim>\<open>>\<close>. Two occurrences of such keys in a string
  are the same occurrence or do not overlap, so two expansion steps from one string are
  equal or can be joined by one step each, and a string has at most one full expansion.
\<close>

lemma of_char_lower_char:
  "(of_char (lower_char c) :: nat) =
     (if (65 \<le> (of_char c :: nat) \<and> (of_char c :: nat) \<le> 90) \<or>
         (192 \<le> (of_char c :: nat) \<and> (of_char c :: nat) \<le> 222 \<and> (of_char c :: nat) \<noteq> 215)
      then of_char c + 32 else of_char c)"
  by (simp add: lower_char_def Let_def)

lemma lower_char_lt: "lower_char c = CHR ''<'' \<longleftrightarrow> c = CHR ''<''"
proof -
  have n: "(of_char (CHR ''<'') :: nat) = 60" by simp
  have "lower_char c = CHR ''<'' \<longleftrightarrow> (of_char (lower_char c) :: nat) = 60"
    by (simp only: n [symmetric] of_char_eq_iff)
  also have "\<dots> \<longleftrightarrow> (of_char c :: nat) = 60"
    unfolding of_char_lower_char by auto
  also have "\<dots> \<longleftrightarrow> c = CHR ''<''"
    by (simp only: n [symmetric] of_char_eq_iff)
  finally show ?thesis .
qed

lemma lower_char_gt: "lower_char c = CHR ''>'' \<longleftrightarrow> c = CHR ''>''"
proof -
  have n: "(of_char (CHR ''>'') :: nat) = 62" by simp
  have "lower_char c = CHR ''>'' \<longleftrightarrow> (of_char (lower_char c) :: nat) = 62"
    by (simp only: n [symmetric] of_char_eq_iff)
  also have "\<dots> \<longleftrightarrow> (of_char c :: nat) = 62"
    unfolding of_char_lower_char by auto
  also have "\<dots> \<longleftrightarrow> c = CHR ''>''"
    by (simp only: n [symmetric] of_char_eq_iff)
  finally show ?thesis .
qed

lemma lower_latin1:
  "nonterminal_str [char_of (196 :: nat)] = nonterminal_str [char_of (228 :: nat)]"
  "lower [char_of (215 :: nat)] = [char_of (215 :: nat)]"
  by (simp_all add: nonterminal_str_def lower_def lower_char_def)

lemma lower_ascii: "lower ''AbZ_1'' = ''abz_1''"
  by code_simp

lemma bracketed_nonterminal:
  assumes "CHR ''<'' \<notin> set var" and "CHR ''>'' \<notin> set var"
  shows "bracketed (nonterminal_str var)"
proof -
  have "CHR ''<'' \<notin> set (lower var)"
  proof
    assume "CHR ''<'' \<in> set (lower var)"
    then obtain c where "c \<in> set var" and "lower_char c = CHR ''<''"
      by (auto simp: lower_def)
    with assms(1) show False by (simp add: lower_char_lt)
  qed
  moreover have "CHR ''>'' \<notin> set (lower var)"
  proof
    assume "CHR ''>'' \<in> set (lower var)"
    then obtain c where "c \<in> set var" and "lower_char c = CHR ''>''"
      by (auto simp: lower_def)
    with assms(2) show False by (simp add: lower_char_gt)
  qed
  ultimately show ?thesis
    unfolding bracketed_def nonterminal_str_def by simp
qed

lemma bracketed_START: "bracketed START_SYMBOL"
  unfolding bracketed_def START_SYMBOL_def by (rule exI [of _ "''start''"]) simp

lemma first_separator:
  "x \<notin> set xs \<Longrightarrow> x \<notin> set xs' \<Longrightarrow> xs @ x # ys = xs' @ x # ys' \<Longrightarrow>
     xs = xs' \<and> ys = ys'"
proof (induction xs arbitrary: xs')
  case Nil
  then show ?case by (cases xs') auto
next
  case (Cons a xs)
  then show ?case by (cases xs') auto
qed

lemma bracketed_same_start:
  assumes "bracketed k1" and "bracketed k2" and "k1 @ v1 = k2 @ v2"
  shows "k1 = k2 \<and> v1 = v2"
proof -
  from assms(1) obtain n1 where k1: "k1 = CHR ''<'' # n1 @ [CHR ''>'']"
    and n1: "CHR ''>'' \<notin> set n1" unfolding bracketed_def by blast
  from assms(2) obtain n2 where k2: "k2 = CHR ''<'' # n2 @ [CHR ''>'']"
    and n2: "CHR ''>'' \<notin> set n2" unfolding bracketed_def by blast
  from assms(3) have "n1 @ CHR ''>'' # v1 = n2 @ CHR ''>'' # v2"
    by (simp add: k1 k2)
  with n1 n2 have "n1 = n2 \<and> v1 = v2"
    by (intro first_separator)
  then show ?thesis by (simp add: k1 k2)
qed

lemma bracketed_no_overlap:
  assumes "bracketed k1" and "bracketed k2" and "k1 @ v1 = w @ k2 @ v2" and "w \<noteq> []"
  shows "\<exists>w'. w = k1 @ w'"
proof -
  from assms(1) obtain n1 where k1: "k1 = CHR ''<'' # n1 @ [CHR ''>'']"
    and n1: "CHR ''<'' \<notin> set n1" unfolding bracketed_def by blast
  from assms(2) obtain n2 where k2: "k2 = CHR ''<'' # n2 @ [CHR ''>'']"
    unfolding bracketed_def by blast
  from assms(3) have "k1 @ v1 = w @ (k2 @ v2)" by simp
  then have "\<exists>r. (k1 = w @ r \<and> r @ v1 = k2 @ v2) \<or> (k1 @ r = w \<and> v1 = r @ (k2 @ v2))"
    by (simp only: append_eq_append_conv2)
  then consider r where "k1 = w @ r" and "r @ v1 = k2 @ v2"
    | r where "k1 @ r = w" and "v1 = r @ k2 @ v2"
    by metis
  then show ?thesis
  proof cases
    case 1
    show ?thesis
    proof (cases "r = []")
      case True
      with 1 show ?thesis by auto
    next
      case False
      from 1(1) assms(4) obtain w0 where "w = CHR ''<'' # w0" and "n1 @ [CHR ''>''] = w0 @ r"
        unfolding k1 by (cases w) auto
      then have "set r \<subseteq> set (n1 @ [CHR ''>''])" by (metis set_append Un_upper2)
      with n1 have "CHR ''<'' \<notin> set r" by auto
      moreover from False 1(2) have "hd r = CHR ''<''"
        unfolding k2 by (cases r) auto
      with False have "CHR ''<'' \<in> set r" by (metis hd_in_set)
      ultimately show ?thesis by simp
    qed
  next
    case 2
    then show ?thesis by auto
  qed
qed

lemma expands_key: "map_of G key = Some alts \<Longrightarrow> key \<in> fst ` set G"
  by (metis map_of_eq_None_iff option.distinct(1))

lemma expands_diamond_aux:
  assumes br: "bracketed k1" "bracketed k2"
      and r1: "map_of G k1 = Some [b1]" and r2: "map_of G k2 = Some [b2]"
      and eq: "k1 @ v1 = w @ k2 @ v2"
  shows "u @ b1 @ v1 = (u @ w) @ b2 @ v2 \<or>
         (\<exists>t. expands G (u @ b1 @ v1) t \<and> expands G ((u @ w) @ b2 @ v2) t)"
proof (cases "w = []")
  case True
  with bracketed_same_start [OF br, of v1 v2] eq have "k1 = k2" "v1 = v2" by simp_all
  with r1 r2 True show ?thesis by simp
next
  case False
  from bracketed_no_overlap [OF br eq False] obtain w' where w: "w = k1 @ w'" ..
  with eq have v1: "v1 = w' @ k2 @ v2" by simp
  have "expands G ((u @ b1 @ w') @ k2 @ v2) ((u @ b1 @ w') @ b2 @ v2)"
    using r2 by (rule expands.expand)
  moreover have "expands G (u @ k1 @ (w' @ b2 @ v2)) (u @ b1 @ (w' @ b2 @ v2))"
    using r1 by (rule expands.expand)
  ultimately show ?thesis unfolding w v1 by auto
qed

lemma expands_diamond:
  assumes "bracketed_keys G" and "expands G s t1" and "expands G s t2"
  shows "t1 = t2 \<or> (\<exists>t. expands G t1 t \<and> expands G t2 t)"
proof -
  from assms(2) obtain k1 b1 u1 v1 where r1: "map_of G k1 = Some [b1]"
    and s1: "s = u1 @ k1 @ v1" and t1: "t1 = u1 @ b1 @ v1"
    by (auto elim: expands.cases)
  from assms(3) obtain k2 b2 u2 v2 where r2: "map_of G k2 = Some [b2]"
    and s2: "s = u2 @ k2 @ v2" and t2: "t2 = u2 @ b2 @ v2"
    by (auto elim: expands.cases)
  from expands_key [OF r1] assms(1) have br1: "bracketed k1"
    unfolding bracketed_keys_def by blast
  from expands_key [OF r2] assms(1) have br2: "bracketed k2"
    unfolding bracketed_keys_def by blast
  note br = br1 br2
  from s1 s2 have "u1 @ (k1 @ v1) = u2 @ (k2 @ v2)" by simp
  then have "\<exists>w. (u1 = u2 @ w \<and> w @ (k1 @ v1) = k2 @ v2) \<or>
      (u1 @ w = u2 \<and> k1 @ v1 = w @ (k2 @ v2))"
    by (simp only: append_eq_append_conv2)
  then consider w where "u2 = u1 @ w" and "k1 @ v1 = w @ k2 @ v2"
    | w where "u1 = u2 @ w" and "k2 @ v2 = w @ k1 @ v1"
    by metis
  then show ?thesis
  proof cases
    case 1
    from expands_diamond_aux [OF br r1 r2 1(2), of u1] show ?thesis
      unfolding t1 t2 1(1) .
  next
    case 2
    from expands_diamond_aux [OF br(2,1) r2 r1 2(2), of u2] show ?thesis
      unfolding t1 t2 2(1) by auto
  qed
qed

lemma derives_to_normal_step:
  assumes d: "bracketed_keys G"
  shows "derives G s n \<Longrightarrow> \<forall>t. \<not> expands G n t \<Longrightarrow> expands G s s' \<Longrightarrow> derives G s' n"
  unfolding derives_def
proof (induction arbitrary: s' rule: converse_rtranclp_induct)
  case base
  then show ?case by blast
next
  case (step s s1)
  from expands_diamond [OF d step.hyps(1) step.prems(2)]
  show ?case
  proof
    assume "s1 = s'"
    with step.hyps(2) show ?thesis by simp
  next
    assume "\<exists>t. expands G s1 t \<and> expands G s' t"
    then obtain t where a: "expands G s1 t" and b: "expands G s' t" by blast
    from step.IH [OF step.prems(1) a] b show ?thesis
      by (meson converse_rtranclp_into_rtranclp)
  qed
qed

lemma derives_normal_unique:
  assumes d: "bracketed_keys G" and n: "\<forall>t. \<not> expands G n t" and sn: "derives G s n"
  shows "derives G s t \<Longrightarrow> derives G t n"
  unfolding derives_def
proof (induction rule: rtranclp_induct)
  case base
  from sn show ?case by (simp add: derives_def)
next
  case (step t t')
  from derives_to_normal_step [OF d _ n step.hyps(2)] step.IH
  show ?case by (simp add: derives_def)
qed

lemma fully_expanded_normal: "fully_expanded G s \<Longrightarrow> \<not> expands G s t"
proof
  assume f: "fully_expanded G s" and "expands G s t"
  then obtain key body u v where m: "map_of G key = Some [body]" and s: "s = u @ key @ v"
    by (auto elim: expands.cases)
  from m have "key \<in> fst ` set G" by (rule expands_key)
  with f have "\<not> sublist key s" unfolding fully_expanded_def by blast
  with s show False by simp
qed

lemma normal_derives_eq:
  "derives G s t \<Longrightarrow> \<forall>t. \<not> expands G s t \<Longrightarrow> t = s"
  unfolding derives_def by (metis converse_rtranclpE)

lemma full_expansion_unique:
  assumes "bracketed_keys G" and "derives G s n" and "fully_expanded G n"
      and "derives G s t" and "fully_expanded G t"
  shows "t = n"
proof -
  from assms(3) have n: "\<forall>t. \<not> expands G n t" by (simp add: fully_expanded_normal)
  from derives_normal_unique [OF assms(1) n assms(2) assms(4)] have "derives G t n" .
  moreover from assms(5) have "\<forall>t'. \<not> expands G t t'" by (simp add: fully_expanded_normal)
  ultimately show ?thesis by (metis normal_derives_eq)
qed

lemma bracketed_fully_expanded:
  assumes "bracketed_keys G" and "CHR ''<'' \<notin> set s"
  shows "fully_expanded G s"
  unfolding fully_expanded_def
proof
  fix key
  assume "key \<in> fst ` set G"
  with assms(1) have "bracketed key" unfolding bracketed_keys_def by blast
  then have "CHR ''<'' \<in> set key" unfolding bracketed_def by auto
  with assms(2) show "\<not> sublist key s" by (meson set_mono_sublist subsetD)
qed

lemma extract_pass_Fixpoint_keys:
  assumes inv: "extract_inv inp G vals" and pass: "extract_pass G vals = Fixpoint G'"
  shows "fst ` set G' = fst ` set G"
proof -
  obtain G1 nr1 where s: "scan_values vals G [] = (G1, nr1)"
    by (cases "scan_values vals G []")
  with pass have "G1 = G'"
    by (auto simp: extract_pass_def split: if_splits prod.splits option.splits)
  with s have "scan_values vals G [] = (G', nr1)" by simp
  from extract_inv_scan [OF inv this] show ?thesis by (rule scan_ok_keys)
qed

lemma extract_pass_Promoted_keys:
  assumes inv: "extract_inv inp G vals" and pass: "extract_pass G vals = Promoted G2 vals2"
  shows "fst ` set G2 \<subseteq> fst ` set G \<union> nonterminal_str ` fst ` set vals"
proof -
  obtain G' nr' where s: "scan_values vals G [] = (G', nr')"
    by (cases "scan_values vals G []")
  with pass have p: "promote nr' G' vals = (None, G2, vals2)"
    by (auto simp: extract_pass_def split: if_splits prod.splits option.splits)
  from promote_grammar [OF p] have G2: "G2 = with_rules G' nr'" by simp
  note ok = extract_inv_scan [OF inv s]
  have "k \<in> nonterminal_str ` fst ` set vals" if "k \<in> alt_keys nr'" for k
  proof -
    from that obtain r where r: "r \<in> set nr'" and k: "k = fst (snd r)"
      by (auto simp: alt_keys_def)
    from scan_ok_new_rules [OF ok r] k show ?thesis by auto
  qed
  then have "alt_keys nr' \<subseteq> nonterminal_str ` fst ` set vals" ..
  then show ?thesis
    unfolding G2 keys_with_rules scan_ok_keys [OF ok] by (rule Un_mono [OF subset_refl])
qed

lemma extract_loop_keys:
  "extract_inv inp G vals \<Longrightarrow> fst (extract_loop G vals) = Inr Gf \<Longrightarrow>
     fst ` set Gf \<subseteq> fst ` set G \<union> nonterminal_str ` fst ` set vals"
proof (induction G vals rule: extract_loop.induct)
  case (1 grammar vals)
  show ?case
  proof (cases "extract_pass grammar vals")
    case (Fixpoint G')
    with "1.prems"(2) have "Gf = G'" by (subst (asm) extract_loop.simps) simp
    with extract_pass_Fixpoint_keys [OF "1.prems"(1) Fixpoint] show ?thesis by simp
  next
    case (Promoted G2 vals2)
    from "1.prems"(2) extract_loop_Promoted [OF Promoted]
    have "fst (extract_loop G2 vals2) = Inr Gf" by simp
    from "1.IH" [OF Promoted extract_pass_Promoted_inv [OF "1.prems"(1) Promoted] this]
    have a: "fst ` set Gf \<subseteq> fst ` set G2 \<union> nonterminal_str ` fst ` set vals2" .
    note b = extract_pass_Promoted_keys [OF "1.prems"(1) Promoted]
    from extract_pass_Promoted_subset [OF Promoted]
    have "fst ` set vals2 \<subseteq> fst ` set vals" by (rule image_mono)
    then have c: "nonterminal_str ` fst ` set vals2 \<subseteq> nonterminal_str ` fst ` set vals"
      by (rule image_mono)
    from b c have "fst ` set G2 \<union> nonterminal_str ` fst ` set vals2 \<subseteq>
        fst ` set grammar \<union> nonterminal_str ` fst ` set vals"
      by (rule Un_least [OF _ le_supI2])
    with a show ?thesis by (rule subset_trans)
  next
    case (Failed e vals')
    with "1.prems"(2) show ?thesis by (subst (asm) extract_loop.simps) simp
  qed
qed

text \<open>
  C1 (round trip). As stated, for every callable and input, the claim fails in two
  ways. The extractor does not keep apart variables whose names give the same
  nonterminal: with \<^verbatim>\<open>A = 'xy'\<close> and \<^verbatim>\<open>a = 'zw'\<close> observed on the input
  \<^verbatim>\<open>xyzw\<close>, both are replaced by \<^verbatim>\<open><a>\<close> and the second promotion overwrites the rule
  of the first; no expansion of \<^verbatim>\<open><a><a>\<close> gives the input back, since no rule body
  has the character \<^verbatim>\<open>x\<close>. And the extractor does not tell a nonterminal it wrote
  from the same text in the input: on the input \<^verbatim>\<open><x>ab\<close> with \<^verbatim>\<open>x = 'ab'\<close> the start
  alternative is \<^verbatim>\<open><x><x>\<close>, whose full expansion is \<^verbatim>\<open>abab\<close>.
\<close>

lemma expands_avoids:
  assumes "expands G s t"
      and "\<And>key body. map_of G key = Some [body] \<Longrightarrow> c \<notin> set body"
      and "c \<notin> set s"
  shows "c \<notin> set t"
  using assms
proof (induction rule: expands.induct)
  case (expand key body u v)
  from expand(2) [OF expand(1)] expand(3) show ?case by simp
qed

lemma derives_avoids:
  assumes "derives G s t"
      and "\<And>key body. map_of G key = Some [body] \<Longrightarrow> c \<notin> set body"
      and "c \<notin> set s"
  shows "c \<notin> set t"
  using assms(1) unfolding derives_def
proof (induction rule: rtranclp_induct)
  case base
  then show ?case using assms(3) by simp
next
  case (step t t')
  from expands_avoids [OF step.hyps(2) assms(2) step.IH] show ?case by simp
qed

lemma clash_grammar:
  "get_grammar clash_callable ''xyzw'' g0 =
     (Inr [(START_SYMBOL, [''<a><a>'']), (''<a>'', [''zw''])],
      \<lparr>the_values = [], the_input = ''xyzw'', trace_hook = NoHook, hidden = ()\<rparr>)"
proof -
  have r: "snd (fst (clash_callable ''xyzw'' (hidden g0))) = Returns PyNone"
    by (simp add: clash_callable_def)
  show ?thesis
    apply (simp only: get_grammar_Returns [of clash_callable "''xyzw''" g0 PyNone, OF r])
    apply (simp add: observed_def g0_def clash_callable_def)
    apply code_simp
    done
qed

lemma bracket_grammar:
  "get_grammar bracket_callable ''<x>ab'' g0 =
     (Inr [(START_SYMBOL, [''<x><x>'']), (''<x>'', [''ab''])],
      \<lparr>the_values = [], the_input = ''<x>ab'', trace_hook = NoHook, hidden = ()\<rparr>)"
proof -
  have r: "snd (fst (bracket_callable ''<x>ab'' (hidden g0))) = Returns PyNone"
    by (simp add: bracket_callable_def)
  show ?thesis
    apply (simp only: get_grammar_Returns [of bracket_callable "''<x>ab''" g0 PyNone, OF r])
    apply (simp add: observed_def g0_def bracket_callable_def)
    apply code_simp
    done
qed

lemma bracket_expansion:
  "derives [(START_SYMBOL, [''<x><x>'']), (''<x>'', [''ab''])] ''<x><x>'' ''abab''"
proof -
  let ?G = "[(START_SYMBOL, [''<x><x>'']), (''<x>'', [''ab''])]"
  have m: "map_of ?G ''<x>'' = Some [''ab'']" by (simp add: START_SYMBOL_def)
  from expands.expand [OF m, of "[]" "''<x>''"] have "derives ?G ''<x><x>'' ''ab<x>''"
    by (simp add: expands_derives)
  moreover from expands.expand [OF m, of "''ab''" "[]"] have "derives ?G ''ab<x>'' ''abab''"
    by (simp add: expands_derives)
  ultimately show ?thesis by (rule derives_trans)
qed

theorem get_grammar_roundtrip_counterexample:
  "get_grammar clash_callable ''xyzw'' g0 =
     (Inr [(START_SYMBOL, [''<a><a>'']), (''<a>'', [''zw''])],
      \<lparr>the_values = [], the_input = ''xyzw'', trace_hook = NoHook, hidden = ()\<rparr>) \<and>
   \<not> derives [(START_SYMBOL, [''<a><a>'']), (''<a>'', [''zw''])] ''<a><a>'' ''xyzw'' \<and>
   get_grammar bracket_callable ''<x>ab'' g0 =
     (Inr [(START_SYMBOL, [''<x><x>'']), (''<x>'', [''ab''])],
      \<lparr>the_values = [], the_input = ''<x>ab'', trace_hook = NoHook, hidden = ()\<rparr>) \<and>
   derives [(START_SYMBOL, [''<x><x>'']), (''<x>'', [''ab''])] ''<x><x>'' ''abab'' \<and>
   \<not> sublist START_SYMBOL ''abab'' \<and> \<not> sublist ''<x>'' ''abab'' \<and> ''abab'' \<noteq> ''<x>ab''"
proof -
  have "\<not> derives [(START_SYMBOL, [''<a><a>'']), (''<a>'', [''zw''])] ''<a><a>'' ''xyzw''"
  proof
    assume d: "derives [(START_SYMBOL, [''<a><a>'']), (''<a>'', [''zw''])] ''<a><a>'' ''xyzw''"
    have "CHR ''x'' \<notin> set body"
      if "map_of [(START_SYMBOL, [''<a><a>'']), (''<a>'', [''zw''])] key = Some [body]"
      for key body
      using that by (auto split: if_splits)
    from derives_avoids [OF d this] show False by simp
  qed
  moreover have "\<not> sublist START_SYMBOL ''abab''" "\<not> sublist ''<x>'' ''abab''"
    by (simp_all add: START_SYMBOL_def sublist_code)
  ultimately show ?thesis
    using clash_grammar bracket_grammar bracket_expansion by simp
qed

text \<open>
  C1 as amended. Suppose the tracer returns a record in which the nonterminals derived
  from the variable names are pairwise different and none is the start symbol, and
  \<^verbatim>\<open>get_grammar\<close> returns a grammar. Then every rule of the grammar has exactly one
  alternative, and the original input is obtained from the alternative of the start rule
  by expansion steps, each replacing one reference to a nonterminal by the single body of
  its rule. If moreover the input has no \<^verbatim>\<open><\<close> and the variable names have no angle
  bracket (no identifier of Python has one), then no nonterminal of the grammar occurs
  in the input, and every full expansion of the start alternative is the input.
\<close>

theorem get_grammar_roundtrip:
  assumes "trace_function func inp g = (Inr vals, g1)"
      and "distinct (map (\<lambda>p. nonterminal_str (fst p)) vals)"
      and "START_SYMBOL \<notin> (\<lambda>p. nonterminal_str (fst p)) ` set vals"
      and "get_grammar func inp g = (Inr G, g2)"
  shows "(\<forall>key alts. map_of G key = Some alts \<longrightarrow> (\<exists>body. alts = [body])) \<and>
         (\<exists>alt. map_of G START_SYMBOL = Some [alt] \<and> derives G alt inp \<and>
            (CHR ''<'' \<notin> set inp \<and>
             (\<forall>p \<in> set vals. CHR ''<'' \<notin> set (fst p) \<and> CHR ''>'' \<notin> set (fst p)) \<longrightarrow>
               fully_expanded G inp \<and>
               (\<forall>t. derives G alt t \<and> fully_expanded G t \<longrightarrow> t = inp)))"
proof -
  from fst_get_grammar [OF assms(1)] assms(4)
  have l: "fst (extract_loop [(START_SYMBOL, [inp])] vals) = Inr G" by simp
  note inv = extract_inv_initial [OF assms(2,3), of inp]
  from extract_loop_inv [OF inv l]
  have s: "single_alternatives G"
    and d: "\<exists>alt. map_of G START_SYMBOL = Some [alt] \<and> derives G alt inp" by simp_all
  have 1: "\<exists>body. alts = [body]" if "map_of G key = Some alts" for key alts
  proof -
    from s that have "length alts = 1" by (simp add: single_alternatives_def)
    then show ?thesis by (cases alts) simp_all
  qed
  from d obtain alt where a: "map_of G START_SYMBOL = Some [alt]" and da: "derives G alt inp"
    by blast
  have 2: "fully_expanded G inp \<and> (\<forall>t. derives G alt t \<and> fully_expanded G t \<longrightarrow> t = inp)"
    if i: "CHR ''<'' \<notin> set inp"
      and v: "\<forall>p \<in> set vals. CHR ''<'' \<notin> set (fst p) \<and> CHR ''>'' \<notin> set (fst p)"
  proof -
    from extract_loop_keys [OF inv l]
    have k: "fst ` set G \<subseteq> insert START_SYMBOL (nonterminal_str ` fst ` set vals)" by simp
    have b: "bracketed_keys G"
      unfolding bracketed_keys_def
    proof
      fix key
      assume "key \<in> fst ` set G"
      with k have "key = START_SYMBOL \<or> key \<in> nonterminal_str ` fst ` set vals" by blast
      then show "bracketed key"
      proof
        assume "key = START_SYMBOL"
        then show ?thesis by (simp add: bracketed_START)
      next
        assume "key \<in> nonterminal_str ` fst ` set vals"
        then obtain p where "p \<in> set vals" and "key = nonterminal_str (fst p)" by auto
        with v show ?thesis by (simp add: bracketed_nonterminal)
      qed
    qed
    from b i have f: "fully_expanded G inp" by (rule bracketed_fully_expanded)
    moreover have "t = inp" if "derives G alt t" and "fully_expanded G t" for t
      using full_expansion_unique [OF b da f that] .
    ultimately show ?thesis by blast
  qed
  show ?thesis
  proof (intro conjI allI impI)
    fix key alts
    assume "map_of G key = Some alts"
    then show "\<exists>body. alts = [body]" by (rule 1)
  next
    show "\<exists>alt. map_of G START_SYMBOL = Some [alt] \<and> derives G alt inp \<and>
            (CHR ''<'' \<notin> set inp \<and>
             (\<forall>p \<in> set vals. CHR ''<'' \<notin> set (fst p) \<and> CHR ''>'' \<notin> set (fst p)) \<longrightarrow>
               fully_expanded G inp \<and>
               (\<forall>t. derives G alt t \<and> fully_expanded G t \<longrightarrow> t = inp))"
    proof (intro exI conjI impI)
      show "map_of G START_SYMBOL = Some [alt]" by (rule a)
      show "derives G alt inp" by (rule da)
    next
      assume h: "CHR ''<'' \<notin> set inp \<and>
        (\<forall>p \<in> set vals. CHR ''<'' \<notin> set (fst p) \<and> CHR ''>'' \<notin> set (fst p))"
      then show "fully_expanded G inp" using 2 by simp
      from h show "\<forall>t. derives G alt t \<and> fully_expanded G t \<longrightarrow> t = inp" using 2 by simp
    qed
  qed
qed

lemma short_trace:
  "trace_function short_callable ''abcd'' g0 =
     (Inr [(''text'', ''abcd''), (''head'', ''ab'')],
      \<lparr>the_values = [(''text'', ''abcd''), (''head'', ''ab'')],
       the_input = ''abcd'', trace_hook = NoHook, hidden = ()\<rparr>)"
proof -
  have r: "snd (fst (short_callable ''abcd'' (hidden g0))) = Returns PyNone"
    by (simp add: short_callable_def)
  show ?thesis
    by (simp only: trace_function_Returns [of short_callable "''abcd''" g0 PyNone, OF r])
      (simp add: observed_def g0_def short_callable_def sublist_code)
qed

theorem get_grammar_roundtrip_witness:
  "trace_function short_callable ''abcd'' g0 =
     (Inr [(''text'', ''abcd''), (''head'', ''ab'')],
      \<lparr>the_values = [(''text'', ''abcd''), (''head'', ''ab'')],
       the_input = ''abcd'', trace_hook = NoHook, hidden = ()\<rparr>) \<and>
   distinct (map (\<lambda>p. nonterminal_str (fst p)) [(''text'', ''abcd''), (''head'', ''ab'')]) \<and>
   START_SYMBOL \<notin> (\<lambda>p. nonterminal_str (fst p)) ` set [(''text'', ''abcd''), (''head'', ''ab'')] \<and>
   CHR ''<'' \<notin> set ''abcd'' \<and>
   CHR ''<'' \<notin> set ''text'' \<and> CHR ''>'' \<notin> set ''text'' \<and>
   CHR ''<'' \<notin> set ''head'' \<and> CHR ''>'' \<notin> set ''head'' \<and>
   get_grammar short_callable ''abcd'' g0 =
     (Inr [(START_SYMBOL, [''<text>'']), (''<text>'', [''<head>cd'']), (''<head>'', [''ab''])],
      \<lparr>the_values = [], the_input = ''abcd'', trace_hook = NoHook, hidden = ()\<rparr>) \<and>
   derives [(START_SYMBOL, [''<text>'']), (''<text>'', [''<head>cd'']), (''<head>'', [''ab''])]
     ''<text>'' ''abcd'' \<and>
   \<not> sublist ''<head>'' ''abcd''"
proof -
  let ?G = "[(START_SYMBOL, [''<text>'']), (''<text>'', [''<head>cd'']), (''<head>'', [''ab''])]"
  have d: "distinct (map (\<lambda>p. nonterminal_str (fst p)) [(''text'', ''abcd''), (''head'', ''ab'')])"
    by code_simp
  have n: "START_SYMBOL \<notin>
      (\<lambda>p. nonterminal_str (fst p)) ` set [(''text'', ''abcd''), (''head'', ''ab'')]"
    by code_simp
  have c: "CHR ''<'' \<notin> set ''abcd'' \<and> CHR ''<'' \<notin> set ''text'' \<and> CHR ''>'' \<notin> set ''text'' \<and>
      CHR ''<'' \<notin> set ''head'' \<and> CHR ''>'' \<notin> set ''head''"
    by simp
  from get_grammar_roundtrip [OF short_trace d n short_grammar]
  obtain alt where a: "map_of ?G START_SYMBOL = Some [alt]"
    and r: "derives ?G alt ''abcd''"
    and f: "CHR ''<'' \<notin> set ''abcd'' \<and>
        (\<forall>p \<in> set [(''text'', ''abcd''), (''head'', ''ab'')].
           CHR ''<'' \<notin> set (fst p) \<and> CHR ''>'' \<notin> set (fst p)) \<longrightarrow>
        fully_expanded ?G ''abcd'' \<and>
        (\<forall>t. derives ?G alt t \<and> fully_expanded ?G t \<longrightarrow> t = ''abcd'')"
    by blast
  from a r have r': "derives ?G ''<text>'' ''abcd''" by simp
  from f have "fully_expanded ?G ''abcd''" by simp
  then have "\<not> sublist ''<head>'' ''abcd''" by (simp add: fully_expanded_def)
  with short_trace d n c short_grammar r' show ?thesis by blast
qed

section \<open>Properties of the merger\<close>

lemma merge_repl_other:
  "key1 \<noteq> key2 \<Longrightarrow> merge_repl key1 key2 repl1 repl2 st = st"
  by (induction key1 key2 repl1 repl2 st rule: merge_repl.induct) simp_all

lemma merge_repl_same:
  "merge_repl key key repl1 repl2 (m, found) =
     (case filter (\<lambda>repl. repl \<notin> set repl1) repl2 of
        [] \<Rightarrow> m
      | new # news \<Rightarrow> AList.update key (repl1 @ [last (new # news)]) m,
      found \<or> repl2 \<noteq> [])"
proof (induction repl2 arbitrary: m found)
  case Nil
  then show ?case by simp
next
  case (Cons repl rest)
  show ?case
    by (simp add: Cons split: list.split)
qed

lemma merge_key1_absent:
  "key2 \<notin> set keys \<Longrightarrow> merge_key1 keys key2 repl2 st = st"
proof (induction keys arbitrary: st)
  case Nil
  then show ?case by (cases st) simp
next
  case (Cons key1 keys)
  obtain m found where st: "st = (m, found)" by (cases st)
  from Cons.prems have n: "key1 \<noteq> key2" and k: "key2 \<notin> set keys" by auto
  show ?case
    by (cases "map_of m key1") (simp_all add: st merge_repl_other [OF n] Cons.IH [OF k])
qed

lemma merge_key1_present:
  "distinct keys \<Longrightarrow> key2 \<in> set keys \<Longrightarrow> map_of m key2 = Some repl1 \<Longrightarrow>
     merge_key1 keys key2 repl2 (m, found) = merge_repl key2 key2 repl1 repl2 (m, found)"
proof (induction keys)
  case Nil
  then show ?case by simp
next
  case (Cons key1 keys)
  show ?case
  proof (cases "key1 = key2")
    case True
    with Cons.prems have "key2 \<notin> set keys" by simp
    then show ?thesis
      using True Cons.prems(3) by (simp add: merge_key1_absent)
  next
    case False
    with Cons.prems have k: "distinct keys" "key2 \<in> set keys" by simp_all
    show ?thesis
      by (cases "map_of m key1")
         (simp_all add: merge_repl_other [OF False] Cons.IH [OF k Cons.prems(3)])
  qed
qed

lemma map_of_merge_step:
  assumes "distinct (map fst m)"
  shows "map_of (merge_step m key2 repl2) = (map_of m)(key2 \<mapsto> merged_rule (map_of m key2) repl2)"
proof (cases "map_of m key2")
  case None
  then have "key2 \<notin> set (map fst m)" by (simp add: map_of_eq_None_iff)
  then show ?thesis
    using None by (simp add: merge_step_def merge_key1_absent merged_rule_def update_conv')
next
  case (Some repl1)
  then have "key2 \<in> set (map fst m)"
    by (metis map_of_eq_None_iff option.distinct(1) set_map)
  from merge_key1_present [OF assms this Some]
  have k: "merge_key1 (map fst m) key2 repl2 (m, False) =
      merge_repl key2 key2 repl1 repl2 (m, False)" .
  have same: "(map_of m)(key2 \<mapsto> repl1) = map_of m"
    using Some by (rule map_upd_triv)
  show ?thesis
  proof (cases "repl2 = []")
    case True
    then show ?thesis
      using Some k by (simp add: merge_step_def merged_rule_def update_conv')
  next
    case False
    then show ?thesis
      using Some same
      by (simp add: merge_step_def k merge_repl_same merged_rule_def update_conv' split: list.split)
  qed
qed

lemma distinct_merge_step:
  assumes "distinct (map fst m)"
  shows "distinct (map fst (merge_step m key2 repl2))"
proof (cases "map_of m key2")
  case None
  then have "key2 \<notin> set (map fst m)" by (simp add: map_of_eq_None_iff)
  then show ?thesis
    using assms by (simp add: merge_step_def merge_key1_absent distinct_update)
next
  case (Some repl1)
  then have "key2 \<in> set (map fst m)"
    by (metis map_of_eq_None_iff option.distinct(1) set_map)
  from merge_key1_present [OF assms this Some]
  have k: "merge_key1 (map fst m) key2 repl2 (m, False) =
      merge_repl key2 key2 repl1 repl2 (m, False)" .
  show ?thesis
    using assms
    by (simp add: merge_step_def k merge_repl_same distinct_update split: list.split)
qed

lemma merge_key2_step:
  "merge_key2 ((key2, repl2) # rules2) m = merge_key2 rules2 (merge_step m key2 repl2)"
  by (simp add: merge_step_def split: prod.split)

lemma map_of_merge_key2:
  "distinct (map fst g2) \<Longrightarrow> distinct (map fst m) \<Longrightarrow>
     map_of (merge_key2 g2 m) key =
       (case map_of g2 key of
          None \<Rightarrow> map_of m key
        | Some repl2 \<Rightarrow> Some (merged_rule (map_of m key) repl2))"
proof (induction g2 arbitrary: m)
  case Nil
  then show ?case by simp
next
  case (Cons rule g2)
  obtain key2 repl2 where r: "rule = (key2, repl2)" by (cases rule)
  from Cons.prems r have d: "distinct (map fst g2)" and n: "map_of g2 key2 = None"
    by (simp_all add: map_of_eq_None_iff)
  have dm: "distinct (map fst (merge_step m key2 repl2))"
    using Cons.prems(2) by (rule distinct_merge_step)
  show ?case
    unfolding r merge_key2_step
    using n by (auto simp: Cons.IH [OF d dm] map_of_merge_step [OF Cons.prems(2)]
        split: option.split)
qed

lemma filter_at_most_one:
  "length (filter P xs) \<le> 1 \<Longrightarrow>
     (case filter P xs of [] \<Rightarrow> ys | new # news \<Rightarrow> ys @ [last (new # news)]) = ys @ filter P xs"
  by (cases "filter P xs") simp_all

text \<open>
  C3 (merge). The claim asks that every alternative of either grammar for a key be in
  the merged rule, those of \<^verbatim>\<open>g2\<close> that \<^verbatim>\<open>g1\<close> lacks appended in order. The loop
  over the alternatives of a rule of \<^verbatim>\<open>g2\<close> assigns
  \<^verbatim>\<open>merged_grammar[key1] = repl1 + [repl]\<close> with \<^verbatim>\<open>repl1\<close> as it was read before
  the loop, so each new alternative overwrites the one appended before it and only the
  last one is kept. The evaluation below is at two grammars with one rule each and no
  duplicates: the rule of \<^verbatim>\<open>g2\<close> has two alternatives that \<^verbatim>\<open>g1\<close> lacks, and the
  first of them is missing from the merged rule.
\<close>

theorem merge_grammars_keeps_last_new_alternative:
  "merge_grammars [(''<a>'', [''x''])] [(''<a>'', [''y'', ''z''])] = [(''<a>'', [''x'', ''z''])] \<and>
   ''y'' \<in> set (alternatives [(''<a>'', [''y'', ''z''])] ''<a>'') \<and>
   ''y'' \<notin> set (alternatives (merge_grammars [(''<a>'', [''x''])] [(''<a>'', [''y'', ''z''])]) ''<a>'')"
  by (simp add: alternatives_def merge_grammars_def)

text \<open>
  What \<^verbatim>\<open>merge_grammars\<close> does when at most one alternative is new. Let \<^verbatim>\<open>g1\<close> and
  \<^verbatim>\<open>g2\<close> be dictionaries, and take a key for which the rule of \<^verbatim>\<open>g2\<close>, if there
  is one, is not empty and has at most one alternative that the rule of \<^verbatim>\<open>g1\<close> lacks
  (so it is for the grammars that \<^verbatim>\<open>get_grammar\<close> returns, whose rules have one
  alternative each). Then the merged rule is the rule of \<^verbatim>\<open>g1\<close> followed by the
  alternatives of \<^verbatim>\<open>g2\<close> that it lacks; every alternative of either grammar for the
  key is in it; and it lists no alternative twice when neither of the two rules does.
\<close>

lemma merge_grammars_one_new_alternative:
  assumes "distinct (map fst g1)" and "distinct (map fst g2)"
      and "\<forall>alts2. map_of g2 key = Some alts2 \<longrightarrow> alts2 \<noteq> []"
      and "\<forall>alts1 alts2. map_of g1 key = Some alts1 \<longrightarrow> map_of g2 key = Some alts2 \<longrightarrow>
             length (filter (\<lambda>a. a \<notin> set alts1) alts2) \<le> 1"
  shows "map_of (merge_grammars g1 g2) key =
           (case map_of g2 key of
              None \<Rightarrow> map_of g1 key
            | Some alts2 \<Rightarrow>
                (case map_of g1 key of
                   None \<Rightarrow> Some alts2
                 | Some alts1 \<Rightarrow> Some (alts1 @ filter (\<lambda>a. a \<notin> set alts1) alts2))) \<and>
         set (alternatives (merge_grammars g1 g2) key) =
           set (alternatives g1 key) \<union> set (alternatives g2 key) \<and>
         (distinct (alternatives g1 key) \<longrightarrow> distinct (alternatives g2 key) \<longrightarrow>
            distinct (alternatives (merge_grammars g1 g2) key))"
proof -
  have m: "map_of (merge_grammars g1 g2) key =
           (case map_of g2 key of
              None \<Rightarrow> map_of g1 key
            | Some alts2 \<Rightarrow>
                (case map_of g1 key of
                   None \<Rightarrow> Some alts2
                 | Some alts1 \<Rightarrow> Some (alts1 @ filter (\<lambda>a. a \<notin> set alts1) alts2)))"
  proof (cases "map_of g2 key")
    case None
    then show ?thesis
      by (simp add: merge_grammars_def map_of_merge_key2 [OF assms(2,1)])
  next
    case s2: (Some alts2)
    with assms(3) have ne: "alts2 \<noteq> []" by simp
    show ?thesis
    proof (cases "map_of g1 key")
      case None
      with s2 show ?thesis
        by (simp add: merge_grammars_def map_of_merge_key2 [OF assms(2,1)] merged_rule_def)
    next
      case (Some alts1)
      with s2 assms(4) have "length (filter (\<lambda>a. a \<notin> set alts1) alts2) \<le> 1" by simp
      from filter_at_most_one [OF this, of alts1] s2 Some ne show ?thesis
        by (simp add: merge_grammars_def map_of_merge_key2 [OF assms(2,1)] merged_rule_def)
    qed
  qed
  have u: "set (alternatives (merge_grammars g1 g2) key) =
      set (alternatives g1 key) \<union> set (alternatives g2 key)"
    by (auto simp: alternatives_def m split: option.splits)
  have d: "distinct (alternatives (merge_grammars g1 g2) key)"
    if "distinct (alternatives g1 key)" and "distinct (alternatives g2 key)"
    using that by (auto simp: alternatives_def m split: option.splits)
  from m u d show ?thesis by blast
qed

text \<open>
  The exceptions of the loop of \<^verbatim>\<open>get_grammar\<close> are key errors; an exception of the
  callable comes from \<^verbatim>\<open>trace_function\<close>, and then the events of the frames on the
  way out leave the state as it is.
\<close>

lemma promote_not_Raised: "fst (promote new_rules grammar vals) \<noteq> Some (Raised e)"
proof (induction new_rules grammar vals rule: promote.induct)
  case (1 grammar vals)
  then show ?case by simp
next
  case (2 v alt_key val rest grammar vals)
  then show ?case
    by (cases "map_of vals v") (simp_all add: Let_def)
qed

lemma extract_pass_not_Raised: "extract_pass grammar vals \<noteq> Failed (Raised e) vals'"
proof
  assume a: "extract_pass grammar vals = Failed (Raised e) vals'"
  obtain grammar' new_rules where sc: "scan_values vals grammar [] = (grammar', new_rules)"
    by (cases "scan_values vals grammar []")
  obtain r grammar'' vals'' where p: "promote new_rules grammar' vals = (r, grammar'', vals'')"
    by (cases "promote new_rules grammar' vals")
  from a sc p have "r = Some (Raised e)"
    by (auto simp: extract_pass_def split: if_splits option.splits)
  with promote_not_Raised [of new_rules grammar' vals e] p show False by simp
qed

lemma extract_loop_not_Raised: "fst (extract_loop grammar vals) \<noteq> Inl (Raised e)"
proof (induction grammar vals rule: extract_loop.induct)
  case (1 grammar vals)
  show ?case
  proof (cases "extract_pass grammar vals")
    case (Fixpoint grammar')
    then show ?thesis by (subst extract_loop.simps) simp
  next
    case (Promoted grammar' vals')
    from "1.IH" [OF Promoted] show ?thesis
      using Promoted by (subst extract_loop.simps) (auto split: prod.split)
  next
    case (Failed err vals')
    with extract_pass_not_Raised [of grammar vals e vals'] have "err \<noteq> Raised e" by auto
    then show ?thesis
      using Failed by (subst extract_loop.simps) simp
  qed
qed

lemma get_grammar_Raised_state:
  assumes "get_grammar func inp g = (Inl (Raised e), g')"
  shows "the_input g' = inp"
    and "trace_hook g = Traceit \<Longrightarrow> 2 \<le> length inp \<Longrightarrow>
           map_of (the_values g') ''input'' = Some inp"
proof -
  have "\<exists>e'. snd (fst (func inp (hidden g))) = Raises e'"
  proof (rule outcome_cases [of func inp "hidden g"])
    fix v
    assume r: "snd (fst (func inp (hidden g))) = Returns v"
    have "fst (get_grammar func inp g) =
        fst (extract_loop [(START_SYMBOL, [inp])]
               (foldl (traceit_var inp) [] (concat (observed func inp g))))"
      unfolding get_grammar_Returns [of func inp g v, OF r] by (simp split: prod.split)
    with assms extract_loop_not_Raised show ?thesis by (metis fst_conv)
  next
    fix e'
    assume "snd (fst (func inp (hidden g))) = Raises e'"
    then show ?thesis by blast
  qed
  then obtain e' where r: "snd (fst (func inp (hidden g))) = Raises e'" ..
  from assms have g': "g' = snd (get_grammar func inp g)" by simp
  show "the_input g' = inp"
    unfolding g' get_grammar_Raises [of func inp g e', OF r] by simp
  show "map_of (the_values g') ''input'' = Some inp"
    if "trace_hook g = Traceit" and "2 \<le> length inp"
    unfolding g' get_grammar_Raises [of func inp g e', OF r]
    using raised_record_input [of func inp g e'] r that by simp
qed

lemma get_merged_grammar_events_again:
  assumes "get_grammar func inp g = (Inl (Raised e), g')"
  shows "frame_events (trace_hook g = Traceit)
           [get_merged_grammar_locals None inp, get_merged_grammar_locals None inp] g' = g'"
proof (cases "trace_hook g = Traceit")
  case True
  from get_grammar_Raised_state [OF assms] True
  have i: "the_input g' = inp"
    and m: "2 \<le> length inp \<Longrightarrow> map_of (the_values g') ''input'' = Some inp"
    by simp_all
  show ?thesis
    by (rule frame_events_input_again)
      (use i m in \<open>auto simp: get_merged_grammar_locals_def\<close>)
next
  case False
  then show ?thesis by (simp add: frame_events_def)
qed

text \<open>
  C10 (empty and one-element sequences). On the empty sequence the loop of
  \<^verbatim>\<open>get_merged_grammar\<close> does not run and the accumulator is returned as it started,
  \<^verbatim>\<open>None\<close>, with the globals untouched. On a sequence of one input the result is what
  \<^verbatim>\<open>get_grammar\<close> gives for that input, exception or grammar, and
  \<^verbatim>\<open>merge_grammars\<close> is not applied.
\<close>

theorem get_merged_grammar_empty_and_single:
  "get_merged_grammar func [] g = (Inr None, g) \<and>
   get_merged_grammar func [inp] g =
     (case get_grammar func inp g of
        (Inl e, g') \<Rightarrow> (Inl e, g')
      | (Inr grammar, g') \<Rightarrow> (Inr (Some grammar), g'))"
proof
  show "get_merged_grammar func [] g = (Inr None, g)"
    by (simp add: get_merged_grammar_def)
  obtain r g' where gg: "get_grammar func inp g = (r, g')"
    by (cases "get_grammar func inp g")
  show "get_merged_grammar func [inp] g =
     (case get_grammar func inp g of
        (Inl e, g') \<Rightarrow> (Inl e, g')
      | (Inr grammar, g') \<Rightarrow> (Inr (Some grammar), g'))"
  proof (cases r)
    case (Inl err)
    show ?thesis
    proof (cases err)
      case (KeyError k)
      with Inl gg show ?thesis by (simp add: get_merged_grammar_def)
    next
      case (Raised e)
      with Inl gg have "get_grammar func inp g = (Inl (Raised e), g')" by simp
      from get_merged_grammar_events_again [OF this] Raised Inl gg show ?thesis
        by (simp add: get_merged_grammar_def)
    qed
  next
    case (Inr grammar)
    with gg show ?thesis by (simp add: get_merged_grammar_def)
  qed
qed

end
